theory Spec2Isabelle
  imports Main "HOL-Library.Word" "HOL-Library.Multiset" "HOL-Library.Char_ord"
    "HOL-Library.List_Lexorder"
begin

section \<open>Truth table generator: the token model\<close>

text \<open>
  The embedding follows \<^verbatim>\<open>truth_table_generator.cpp\<close>. A \<^verbatim>\<open>Token\<close> is a record of the
  four private fields of the class; the two enumerations are datatypes. The accessor
  \<^verbatim>\<open>precedence()\<close> returns the enumerator as an \<^verbatim>\<open>int\<close>, which \<open>rank\<close> writes out
  (\<^verbatim>\<open>L1\<close> is 0, \<^verbatim>\<open>NA\<close> is 5).
\<close>

datatype Type = TRUTH_VALUE | PROPOSITION | NEGATION | CONJUNCTION | DISJUNCTION
  | IMPLICATION | BICONDITIONAL | LPAREN | RPAREN

datatype Precedence = L1 | L2 | L3 | L4 | L5 | NA

record Token =
  type :: Type
  precedence :: Precedence
  val :: bool
  lexeme :: string

fun rank :: "Precedence \<Rightarrow> int" where
  "rank L1 = 0"
| "rank L2 = 1"
| "rank L3 = 2"
| "rank L4 = 3"
| "rank L5 = 4"
| "rank NA = 5"

text \<open>The default constructor \<^verbatim>\<open>Token()\<close> and the four-argument constructor.\<close>

definition Token_default :: Token where
  "Token_default = \<lparr>type = TRUTH_VALUE, precedence = NA, val = False, lexeme = ''null''\<rparr>"

definition mkToken :: "Type \<Rightarrow> Precedence \<Rightarrow> bool \<Rightarrow> string \<Rightarrow> Token" where
  "mkToken ty p v l = \<lparr>type = ty, precedence = p, val = v, lexeme = l\<rparr>"

fun isOperator :: "Token \<Rightarrow> bool" where
  "isOperator t = (case type t of
       NEGATION \<Rightarrow> True
     | CONJUNCTION \<Rightarrow> True
     | DISJUNCTION \<Rightarrow> True
     | IMPLICATION \<Rightarrow> True
     | BICONDITIONAL \<Rightarrow> True
     | _ \<Rightarrow> False)"

text \<open>\<^verbatim>\<open>setValue\<close> changes the value of a propositional variable only.\<close>

definition setValue :: "bool \<Rightarrow> Token \<Rightarrow> Token" where
  "setValue v t = (if type t = PROPOSITION then t\<lparr>val := v\<rparr> else t)"

section \<open>The variable registry\<close>

text \<open>
  \<^verbatim>\<open>std::map<std::string, Token>\<close> is an association list kept in ascending key order,
  which is the order a range-for loop visits it in. \<^verbatim>\<open>std::string\<close> compares
  lexicographically by unsigned byte value, which is the order of \<open>string\<close> here.
  \<^verbatim>\<open>insert\<close> leaves the map as it is when the key is present.
\<close>

type_synonym registry = "(string \<times> Token) list"

fun map_insert :: "string \<Rightarrow> Token \<Rightarrow> registry \<Rightarrow> registry" where
  "map_insert k v [] = [(k, v)]"
| "map_insert k v ((k', v') # m) =
     (if k = k' then (k', v') # m
      else if k < k' then (k, v) # (k', v') # m
      else (k', v') # map_insert k v m)"

text \<open>
  \<^verbatim>\<open>propositions[key]\<close>: \<^verbatim>\<open>operator[]\<close> returns the stored token, and when the key is
  absent it first inserts a default-constructed token under it. The result is the token
  together with the registry after the call.
\<close>

definition map_index :: "registry \<Rightarrow> string \<Rightarrow> Token \<times> registry" where
  "map_index m k = (case map_of m k of
       Some t \<Rightarrow> (t, m)
     | None \<Rightarrow> (Token_default, map_insert k Token_default m))"

section \<open>The lexer\<close>

text \<open>
  The state of a \<^verbatim>\<open>Lexer\<close> object. The two positions are \<^verbatim>\<open>int\<close>s that start at 0 and
  are only ever incremented, so they are natural numbers here (the source string is
  taken to be shorter than \<open>2^31\<close> characters).
\<close>

record Lexer =
  tokens :: "Token list"
  proposition_tokens :: registry
  source :: string
  start_position :: nat
  current_position :: nat

definition endReached :: "Lexer \<Rightarrow> bool" where
  "endReached lx = (current_position lx \<ge> length (source lx))"

text \<open>The characters from \<^verbatim>\<open>_start_position\<close> to \<^verbatim>\<open>_current_position\<close>, both included.\<close>

definition getCurrentLexeme :: "Lexer \<Rightarrow> string" where
  "getCurrentLexeme lx =
     map (\<lambda>i. source lx ! i) [start_position lx ..< Suc (current_position lx)]"

text \<open>The three overloads of \<^verbatim>\<open>addToken\<close>.\<close>

definition addToken :: "Type \<Rightarrow> Lexer \<Rightarrow> Lexer" where
  "addToken ty lx = lx\<lparr>tokens := tokens lx @ [mkToken ty NA False (getCurrentLexeme lx)]\<rparr>"

definition addToken_prec :: "Type \<Rightarrow> Precedence \<Rightarrow> Lexer \<Rightarrow> Lexer" where
  "addToken_prec ty p lx =
     lx\<lparr>tokens := tokens lx @ [mkToken ty p False (getCurrentLexeme lx)]\<rparr>"

definition addToken_value :: "Type \<Rightarrow> bool \<Rightarrow> Lexer \<Rightarrow> Lexer" where
  "addToken_value ty v lx =
     lx\<lparr>tokens := tokens lx @ [mkToken ty NA v (getCurrentLexeme lx)]\<rparr>"

text \<open>
  \<^verbatim>\<open>matchNext\<close> advances the position before it looks at the character, and does not
  step back when the character is not the expected one.
\<close>

definition matchNext :: "char \<Rightarrow> Lexer \<Rightarrow> bool \<times> Lexer" where
  "matchNext c lx =
     (let lx' = lx\<lparr>current_position := current_position lx + 1\<rparr> in
      if endReached lx' then (False, lx')
      else if source lx' ! current_position lx' \<noteq> c then (False, lx')
      else (True, lx'))"

definition scanToken :: "Lexer \<Rightarrow> Lexer" where
  "scanToken lx =
     (let c = source lx ! current_position lx;
          lx1 =
            (if c = CHR '' '' then lx
             else if c = CHR ''0'' \<or> c = CHR ''F'' then addToken_value TRUTH_VALUE False lx
             else if c = CHR ''1'' \<or> c = CHR ''T'' then addToken_value TRUTH_VALUE True lx
             else if c = CHR ''('' then addToken_prec LPAREN NA lx
             else if c = CHR '')'' then addToken_prec RPAREN NA lx
             else if c = CHR ''^'' \<or> c = CHR ''*'' then addToken_prec CONJUNCTION L2 lx
             else if c = CHR ''v'' \<or> c = CHR ''+'' then addToken_prec DISJUNCTION L3 lx
             else if c = CHR ''!'' \<or> c = CHR ''~'' then addToken_prec NEGATION L1 lx
             else if c = CHR ''-'' then
               (case matchNext (CHR ''>'') lx of
                  (True, lx') \<Rightarrow> addToken_prec IMPLICATION L4 lx'
                | (False, lx') \<Rightarrow> lx')
             else if c = CHR ''<'' then
               (case matchNext (CHR ''-'') lx of
                  (False, lx') \<Rightarrow> lx'
                | (True, lx') \<Rightarrow>
                    (case matchNext (CHR ''>'') lx' of
                       (True, lx'') \<Rightarrow> addToken_prec BICONDITIONAL L5 lx''
                     | (False, lx'') \<Rightarrow> lx''))
             else
               (let lx' = addToken PROPOSITION lx in
                lx'\<lparr>proposition_tokens :=
                      map_insert (getCurrentLexeme lx')
                        (mkToken PROPOSITION NA False (getCurrentLexeme lx'))
                        (proposition_tokens lx')\<rparr>))
      in lx1\<lparr>current_position := current_position lx1 + 1\<rparr>)"

function scanTokens :: "Lexer \<Rightarrow> Lexer" where
  "scanTokens lx =
     (if \<not> endReached lx
      then scanTokens (scanToken (lx\<lparr>start_position := current_position lx\<rparr>))
      else lx)"
  by pat_completeness auto
termination
proof (relation "measure (\<lambda>lx. Suc (length (source lx)) - current_position lx)")
  show "wf (measure (\<lambda>lx. Suc (length (source lx)) - current_position lx))"
    by simp
next
  fix lx :: Lexer
  assume open_end: "\<not> endReached lx"
  let ?lx = "lx\<lparr>start_position := current_position lx\<rparr>"
  have src: "source (scanToken ?lx) = source lx"
    by (simp add: scanToken_def Let_def matchNext_def addToken_def addToken_prec_def
        addToken_value_def split: prod.splits bool.splits)
  have adv: "current_position lx < current_position (scanToken ?lx)"
    by (simp add: scanToken_def Let_def matchNext_def addToken_def addToken_prec_def
        addToken_value_def split: prod.splits bool.splits)
  from open_end have "current_position lx < length (source lx)"
    by (simp add: endReached_def)
  with src adv
  show "(scanToken ?lx, lx) \<in> measure (\<lambda>lx. Suc (length (source lx)) - current_position lx)"
    by simp
qed

text \<open>The constructor \<^verbatim>\<open>Lexer(source)\<close> stores the text and scans it.\<close>

definition Lexer_new :: "string \<Rightarrow> Lexer" where
  "Lexer_new s =
     scanTokens \<lparr>tokens = [], proposition_tokens = [], source = s,
                 start_position = 0, current_position = 0\<rparr>"

definition getTokens :: "Lexer \<Rightarrow> Token list" where
  "getTokens lx = tokens lx"

definition getPropositionTokens :: "Lexer \<Rightarrow> registry" where
  "getPropositionTokens lx = proposition_tokens lx"

section \<open>Undefined behaviour as an error value\<close>

text \<open>
  The program has no exceptions. Three of its operations have undefined behaviour on some
  inputs, and the model returns an error value where the source would run into it:
  \<^verbatim>\<open>tokens[i]\<close> on a \<^verbatim>\<open>std::vector\<close> with \<open>i\<close> outside the vector, \<^verbatim>\<open>top()\<close> and
  \<^verbatim>\<open>pop()\<close> on an empty \<^verbatim>\<open>std::stack\<close>, and \<^verbatim>\<open>1 << n\<close> on a 32-bit \<^verbatim>\<open>int\<close> with
  \<open>n \<ge> 32\<close>.
\<close>

datatype error = OutOfRange int | EmptyStack | ShiftTooWide nat

section \<open>The validator\<close>

text \<open>
  \<^verbatim>\<open>tokens[i]\<close> for an \<^verbatim>\<open>int\<close> index. The index \<open>i - 1\<close> at \<open>i = 0\<close> is \<open>-1\<close>, which
  \<^verbatim>\<open>operator[]\<close> receives as a huge unsigned value: it is out of range like \<open>i + 1\<close> at
  the last token.
\<close>

definition tok_at :: "Token list \<Rightarrow> int \<Rightarrow> error + Token" where
  "tok_at ts i =
     (if 0 \<le> i \<and> i < int (length ts) then Inr (ts ! nat i) else Inl (OutOfRange i))"

text \<open>A test on the token at an index, and the short-circuit operators of C++.\<close>

definition check :: "Token list \<Rightarrow> int \<Rightarrow> (Token \<Rightarrow> bool) \<Rightarrow> error + bool" where
  "check ts i P = (case tok_at ts i of Inl e \<Rightarrow> Inl e | Inr t \<Rightarrow> Inr (P t))"

definition or_else :: "error + bool \<Rightarrow> error + bool \<Rightarrow> error + bool" where
  "or_else a b = (case a of Inl e \<Rightarrow> Inl e | Inr True \<Rightarrow> Inr True | Inr False \<Rightarrow> b)"

definition and_also :: "error + bool \<Rightarrow> error + bool \<Rightarrow> error + bool" where
  "and_also a b = (case a of Inl e \<Rightarrow> Inl e | Inr False \<Rightarrow> Inr False | Inr True \<Rightarrow> b)"

text \<open>
  The three conditions that the \<^verbatim>\<open>switch\<close> of \<^verbatim>\<open>validateTokenString\<close> tests for the
  token at index \<open>i\<close>, in the order of the source: for a truth value or a variable, for
  a negation, and for a binary operator. The operands of \<^verbatim>\<open>||\<close> are evaluated from left
  to right, and \<^verbatim>\<open>&&\<close> binds tighter than \<^verbatim>\<open>||\<close> in the last operand of the second
  condition.
\<close>

definition operand_condition :: "Token list \<Rightarrow> int \<Rightarrow> error + bool" where
  "operand_condition ts i =
     or_else (Inr (length ts = 1))
    (or_else (and_also (check ts (i + 1) isOperator)
                       (check ts (i + 1) (\<lambda>t. \<not> (type t = NEGATION))))
    (or_else (check ts (i - 1) isOperator)
             (check ts (i - 1) (\<lambda>t. type t = LPAREN))))"

definition negation_condition :: "Token list \<Rightarrow> int \<Rightarrow> error + bool" where
  "negation_condition ts i =
     or_else (check ts (i + 1) (\<lambda>t. type t = TRUTH_VALUE))
    (or_else (check ts (i + 1) (\<lambda>t. type t = PROPOSITION))
    (or_else (check ts (i + 1) (\<lambda>t. type t = LPAREN))
    (or_else (check ts (i + 1) (\<lambda>t. type t = NEGATION))
    (or_else (check ts (i - 1) (\<lambda>t. type t = LPAREN))
             (and_also (check ts (i - 1) isOperator)
                       (check ts (i + 1) (\<lambda>t. \<not> (type t = NEGATION))))))))"

definition binary_condition :: "Token list \<Rightarrow> int \<Rightarrow> error + bool" where
  "binary_condition ts i =
     or_else (check ts (i + 1) (\<lambda>t. type t = TRUTH_VALUE))
    (or_else (check ts (i + 1) (\<lambda>t. type t = PROPOSITION))
    (or_else (check ts (i + 1) (\<lambda>t. type t = LPAREN))
    (or_else (check ts (i + 1) (\<lambda>t. type t = NEGATION))
    (or_else (check ts (i - 1) (\<lambda>t. type t = TRUTH_VALUE))
    (or_else (check ts (i - 1) (\<lambda>t. type t = PROPOSITION))
             (check ts (i - 1) (\<lambda>t. type t = RPAREN)))))))"

text \<open>
  The \<^verbatim>\<open>switch\<close> itself: the result is whether the flag stays as it is. Parentheses
  fall to \<^verbatim>\<open>default: break\<close> and are not tested at all.
\<close>

definition validate_token :: "Token list \<Rightarrow> int \<Rightarrow> error + bool" where
  "validate_token ts i =
     (case type (ts ! nat i) of
        TRUTH_VALUE \<Rightarrow> operand_condition ts i
      | PROPOSITION \<Rightarrow> operand_condition ts i
      | NEGATION \<Rightarrow> negation_condition ts i
      | CONJUNCTION \<Rightarrow> binary_condition ts i
      | DISJUNCTION \<Rightarrow> binary_condition ts i
      | IMPLICATION \<Rightarrow> binary_condition ts i
      | BICONDITIONAL \<Rightarrow> binary_condition ts i
      | _ \<Rightarrow> Inr True)"

text \<open>The loop over all indices: it does not stop when the flag is cleared.\<close>

function validate_loop :: "Token list \<Rightarrow> nat \<Rightarrow> bool \<Rightarrow> error + bool" where
  "validate_loop ts i flag =
     (if i < length ts
      then (case validate_token ts (int i) of
              Inl e \<Rightarrow> Inl e
            | Inr ok \<Rightarrow> validate_loop ts (Suc i) (if ok then flag else False))
      else Inr flag)"
  by pat_completeness auto
termination
  by (relation "measure (\<lambda>(ts, i, flag). length ts - i)") auto

definition validateTokenString :: "Token list \<Rightarrow> error + bool" where
  "validateTokenString ts = validate_loop ts 0 True"

section \<open>The converter\<close>

text \<open>
  The operator stack is a list with its top at the head. \<open>pop_tighter\<close> is the
  \<^verbatim>\<open>while\<close> loop run for an operator token; \<open>pop_to_lparen\<close> is the loop run for a
  right parenthesis together with the \<^verbatim>\<open>pop()\<close> that removes the left parenthesis, and
  it reads \<^verbatim>\<open>top()\<close> of an empty stack when no left parenthesis is there.
\<close>

fun pop_tighter :: "Token \<Rightarrow> Token list \<Rightarrow> Token list \<Rightarrow> Token list \<times> Token list" where
  "pop_tighter t [] output = ([], output)"
| "pop_tighter t (tp # operators) output =
     (if rank (precedence t) > rank (precedence tp)
      then pop_tighter t operators (output @ [tp])
      else (tp # operators, output))"

fun pop_to_lparen :: "Token list \<Rightarrow> Token list \<Rightarrow> error + (Token list \<times> Token list)" where
  "pop_to_lparen [] output = Inl EmptyStack"
| "pop_to_lparen (tp # operators) output =
     (if type tp \<noteq> LPAREN
      then pop_to_lparen operators (output @ [tp])
      else Inr (operators, output))"

fun toPostFix_loop :: "Token list \<Rightarrow> Token list \<Rightarrow> Token list \<Rightarrow> error + Token list" where
  "toPostFix_loop [] operators output = Inr (output @ operators)"
| "toPostFix_loop (t # ts) operators output =
     (if isOperator t then
        (case pop_tighter t operators output of
           (operators', output') \<Rightarrow> toPostFix_loop ts (t # operators') output')
      else if type t = LPAREN then toPostFix_loop ts (t # operators) output
      else if type t = RPAREN then
        (case pop_to_lparen operators output of
           Inl e \<Rightarrow> Inl e
         | Inr (operators', output') \<Rightarrow> toPostFix_loop ts operators' output')
      else toPostFix_loop ts operators (output @ [t]))"

definition toPostFix :: "Token list \<Rightarrow> error + Token list" where
  "toPostFix ts = toPostFix_loop ts [] []"

section \<open>The evaluator\<close>

text \<open>
  The operand stack is a list of booleans with its top at the head. \<^verbatim>\<open>solveBinary\<close>
  takes the right operand first. The comparison \<^verbatim>\<open>left <= right\<close> on \<^verbatim>\<open>bool\<close> is the
  order of \<open>bool\<close>, in which \<open>False\<close> is below \<open>True\<close>.
\<close>

definition solveBinary :: "(bool \<Rightarrow> bool \<Rightarrow> bool) \<Rightarrow> bool list \<Rightarrow> error + (bool \<times> bool list)" where
  "solveBinary func operands =
     (case operands of
        [] \<Rightarrow> Inl EmptyStack
      | right # operands1 \<Rightarrow>
          (case operands1 of
             [] \<Rightarrow> Inl EmptyStack
           | left # operands2 \<Rightarrow> Inr (func left right, operands2)))"

definition solveUnary :: "(bool \<Rightarrow> bool) \<Rightarrow> bool list \<Rightarrow> error + (bool \<times> bool list)" where
  "solveUnary func operands =
     (case operands of
        [] \<Rightarrow> Inl EmptyStack
      | right # operands1 \<Rightarrow> Inr (func right, operands1))"

definition push_result :: "registry \<Rightarrow> error + (bool \<times> bool list) \<Rightarrow> error + (bool list \<times> registry)" where
  "push_result props r =
     (case r of Inl e \<Rightarrow> Inl e | Inr (b, operands) \<Rightarrow> Inr (b # operands, props))"

text \<open>
  One pass of the \<^verbatim>\<open>switch\<close> in the evaluation loop. The state is the operand stack
  and the registry, which \<^verbatim>\<open>propositions[t.lexeme()]\<close> may extend.
\<close>

definition eval_token :: "Token \<Rightarrow> bool list \<times> registry \<Rightarrow> error + (bool list \<times> registry)" where
  "eval_token t st =
     (case st of (operands, props) \<Rightarrow>
        (case type t of
           TRUTH_VALUE \<Rightarrow> Inr (val t # operands, props)
         | PROPOSITION \<Rightarrow>
             (case map_index props (lexeme t) of
                (tok, props') \<Rightarrow> Inr (val tok # operands, props'))
         | NEGATION \<Rightarrow> push_result props (solveUnary (\<lambda>right. \<not> right) operands)
         | CONJUNCTION \<Rightarrow>
             push_result props (solveBinary (\<lambda>left right. left \<and> right) operands)
         | DISJUNCTION \<Rightarrow>
             push_result props (solveBinary (\<lambda>left right. left \<or> right) operands)
         | IMPLICATION \<Rightarrow>
             push_result props (solveBinary (\<lambda>left right. left \<le> right) operands)
         | BICONDITIONAL \<Rightarrow>
             push_result props (solveBinary (\<lambda>left right. left = right) operands)
         | _ \<Rightarrow> Inr (operands, props)))"

fun eval_postfix :: "Token list \<Rightarrow> bool list \<times> registry \<Rightarrow> error + (bool list \<times> registry)" where
  "eval_postfix [] st = Inr st"
| "eval_postfix (t # ts) st =
     (case eval_token t st of Inl e \<Rightarrow> Inl e | Inr st' \<Rightarrow> eval_postfix ts st')"

section \<open>The table driver\<close>

text \<open>
  The inner loop over the registry: the entry visited with counter \<open>j\<close> receives
  \<^verbatim>\<open>!(1 == ((i >> j) & 1))\<close>, and \<open>j\<close> counts down from \<open>N - 1\<close>.
\<close>

fun assign :: "int \<Rightarrow> int \<Rightarrow> registry \<Rightarrow> registry" where
  "assign i j [] = []"
| "assign i j ((k, t) # m) =
     (k, setValue (\<not> (1 = and (drop_bit (nat j) i) 1)) t) # assign i (j - 1) m"

text \<open>
  The row loop. The row counter is an \<^verbatim>\<open>int\<close>, taken to be 32 bits wide, and the bound
  \<^verbatim>\<open>1 << propositions.size()\<close> is computed in that type on every pass: \<open>1 << 31\<close> is the
  most negative \<^verbatim>\<open>int\<close> (two's complement), and a wider shift is undefined. A row is the
  list of the values printed for the variables and the value printed for the
  expression, which is \<^verbatim>\<open>operands.top()\<close>; one element is popped afterwards, and the
  stack is the same object for all rows. The converter is called anew for each row.
\<close>

type_synonym row = "bool list \<times> bool"

function row_loop :: "Token list \<Rightarrow> int \<Rightarrow> registry \<Rightarrow> bool list \<Rightarrow> row list \<Rightarrow> error + row list" where
  "row_loop ts i props operands rows =
     (if 32 \<le> length props then Inl (ShiftTooWide (length props))
      else if i < sint (push_bit (length props) 1 :: 32 word) then
        (let props1 = assign i (int (length props) - 1) props;
             printed = map (\<lambda>x. val (snd x)) props1
         in case toPostFix ts of
              Inl e \<Rightarrow> Inl e
            | Inr postfix \<Rightarrow>
                (case eval_postfix postfix (operands, props1) of
                   Inl e \<Rightarrow> Inl e
                 | Inr (operands', props2) \<Rightarrow>
                     (case operands' of
                        [] \<Rightarrow> Inl EmptyStack
                      | tp # rest \<Rightarrow>
                          row_loop ts (i + 1) props2 rest (rows @ [(printed, tp)]))))
      else Inr rows)"
  by pat_completeness auto
termination
proof (relation "measure (\<lambda>(ts, i, props, operands, rows). nat (2 ^ 31 - i))")
  show "wf (measure (\<lambda>(ts, i, props, operands, rows). nat (2 ^ 31 - i)))"
    by simp
next
  fix ts :: "Token list" and i :: int and props props2 :: registry
    and operands rest :: "bool list" and rows :: "row list" and printed :: "bool list"
    and tp :: bool
  assume "i < sint (push_bit (length props) 1 :: 32 word)"
  moreover have "sint (push_bit (length props) 1 :: 32 word) < 2 ^ 31"
    using sint_lt [of "push_bit (length props) 1 :: 32 word"] by simp
  ultimately
  show "((ts, i + 1, props2, rest, rows @ [(printed, tp)]), ts, i, props, operands, rows)
          \<in> measure (\<lambda>(ts, i, props, operands, rows). nat (2 ^ 31 - i))"
    by simp
qed

text \<open>
  What one call of \<^verbatim>\<open>evaluate\<close> prints: nothing for the empty string, the line
  \<^verbatim>\<open>Invalid expression!\<close>, or a table, which is the header (the keys of the registry in
  the order of the range-for loop, then the expression) and the rows. The widths and
  the line breaks of the output are left out. An error value says that the call ran
  into undefined behaviour; what it had printed until then is not recorded.
\<close>

datatype outcome = NoOutput | InvalidExpression | Table "string list" string "row list"

definition evaluate :: "string \<Rightarrow> error + outcome" where
  "evaluate expression =
     (if expression = [] then Inr NoOutput
      else
        (let lexer = Lexer_new expression;
             ts = getTokens lexer
         in case validateTokenString ts of
              Inl e \<Rightarrow> Inl e
            | Inr False \<Rightarrow> Inr InvalidExpression
            | Inr True \<Rightarrow>
                (let propositions = getPropositionTokens lexer
                 in case row_loop ts 0 propositions [] [] of
                      Inl e \<Rightarrow> Inl e
                    | Inr rows \<Rightarrow> Inr (Table (map fst propositions) expression rows))))"

section \<open>Expressions and their renderings as token sequences\<close>

text \<open>
  The properties below speak of well-formed expressions, well-formed postfix sequences
  and the standard semantics. These notions are not in the program; they are defined
  here as the reference the program is compared with. An expression is a syntax tree
  whose nodes carry the lexeme their token was scanned from.
\<close>

datatype binop = Conj | Disj | Impl | Bicond

datatype expr = Lit bool string | Var string | Neg string expr | Bin binop string expr expr

fun bin_type :: "binop \<Rightarrow> Type" where
  "bin_type Conj = CONJUNCTION"
| "bin_type Disj = DISJUNCTION"
| "bin_type Impl = IMPLICATION"
| "bin_type Bicond = BICONDITIONAL"

fun bin_prec :: "binop \<Rightarrow> Precedence" where
  "bin_prec Conj = L2"
| "bin_prec Disj = L3"
| "bin_prec Impl = L4"
| "bin_prec Bicond = L5"

text \<open>The tokens as the scanner builds them for each kind of lexeme.\<close>

definition lit_tok :: "bool \<Rightarrow> string \<Rightarrow> Token" where
  "lit_tok b l = mkToken TRUTH_VALUE NA b l"

definition var_tok :: "string \<Rightarrow> Token" where
  "var_tok x = mkToken PROPOSITION NA False x"

definition neg_tok :: "string \<Rightarrow> Token" where
  "neg_tok l = mkToken NEGATION L1 False l"

definition bin_tok :: "binop \<Rightarrow> string \<Rightarrow> Token" where
  "bin_tok b l = mkToken (bin_type b) (bin_prec b) False l"

definition lparen_tok :: Token where
  "lparen_tok = mkToken LPAREN NA False ''(''"

definition rparen_tok :: Token where
  "rparen_tok = mkToken RPAREN NA False '')''"

text \<open>The precedence the scanner gives to a token of each type.\<close>

fun prec_of :: "Type \<Rightarrow> Precedence" where
  "prec_of NEGATION = L1"
| "prec_of CONJUNCTION = L2"
| "prec_of DISJUNCTION = L3"
| "prec_of IMPLICATION = L4"
| "prec_of BICONDITIONAL = L5"
| "prec_of _ = NA"

definition scanned :: "Token \<Rightarrow> bool" where
  "scanned t = (precedence t = prec_of (type t))"

text \<open>
  The standard semantics under an assignment of truth values to variable names, and the
  assignment that a registry holds (a name that is not a key reads as false, the value
  of the default token).
\<close>

fun apply_bin :: "binop \<Rightarrow> bool \<Rightarrow> bool \<Rightarrow> bool" where
  "apply_bin Conj l r = (l \<and> r)"
| "apply_bin Disj l r = (l \<or> r)"
| "apply_bin Impl l r = (\<not> l \<or> r)"
| "apply_bin Bicond l r = (l = r)"

fun sem :: "(string \<Rightarrow> bool) \<Rightarrow> expr \<Rightarrow> bool" where
  "sem env (Lit b l) = b"
| "sem env (Var x) = env x"
| "sem env (Neg l e) = (\<not> sem env e)"
| "sem env (Bin b l e1 e2) = apply_bin b (sem env e1) (sem env e2)"

definition binding :: "registry \<Rightarrow> string \<Rightarrow> bool" where
  "binding props x = (case map_of props x of Some t \<Rightarrow> val t | None \<Rightarrow> False)"

fun variables :: "expr \<Rightarrow> string set" where
  "variables (Lit b l) = {}"
| "variables (Var x) = {x}"
| "variables (Neg l e) = variables e"
| "variables (Bin b l e1 e2) = variables e1 \<union> variables e2"

text \<open>
  Three renderings of an expression: in postfix form, fully parenthesized (every
  operator application in its own pair of parentheses), and bare (no parentheses).
\<close>

fun postfix :: "expr \<Rightarrow> Token list" where
  "postfix (Lit b l) = [lit_tok b l]"
| "postfix (Var x) = [var_tok x]"
| "postfix (Neg l e) = postfix e @ [neg_tok l]"
| "postfix (Bin b l e1 e2) = postfix e1 @ postfix e2 @ [bin_tok b l]"

fun parenthesized :: "expr \<Rightarrow> Token list" where
  "parenthesized (Lit b l) = [lit_tok b l]"
| "parenthesized (Var x) = [var_tok x]"
| "parenthesized (Neg l e) = [lparen_tok, neg_tok l] @ parenthesized e @ [rparen_tok]"
| "parenthesized (Bin b l e1 e2) =
     [lparen_tok] @ parenthesized e1 @ [bin_tok b l] @ parenthesized e2 @ [rparen_tok]"

fun bare :: "expr \<Rightarrow> Token list" where
  "bare (Lit b l) = [lit_tok b l]"
| "bare (Var x) = [var_tok x]"
| "bare (Neg l e) = neg_tok l # bare e"
| "bare (Bin b l e1 e2) = bare e1 @ [bin_tok b l] @ bare e2"

text \<open>
  The bare rendering denotes the tree it was made from when the tree follows the
  precedence order Negation, Conjunction, Disjunction, Implication, Biconditional
  (tightest first): the operand of a negation is a literal, a variable or a negation,
  the left operand of a binary operator binds strictly tighter than the operator, and
  the right operand binds at least as tight (operators of one level group to the right).
  \<open>level\<close> is the rank of the topmost operator, 0 for a literal or a variable.
\<close>

fun level :: "expr \<Rightarrow> int" where
  "level (Lit b l) = 0"
| "level (Var x) = 0"
| "level (Neg l e) = 0"
| "level (Bin b l e1 e2) = rank (bin_prec b)"

fun by_precedence :: "expr \<Rightarrow> bool" where
  "by_precedence (Lit b l) = True"
| "by_precedence (Var x) = True"
| "by_precedence (Neg l e) = (by_precedence e \<and> level e = 0)"
| "by_precedence (Bin b l e1 e2) =
     (by_precedence e1 \<and> by_precedence e2
      \<and> level e1 < rank (bin_prec b) \<and> level e2 \<le> rank (bin_prec b))"

text \<open>
  Conjunction, disjunction and the biconditional are associative, so a chain of one of
  them needs no parentheses however it is grouped. \<open>needs_no_parens\<close> is the weaker
  condition that allows the left operand of these three to be of the operator's own
  level, and \<open>regroup\<close> turns such a tree into the one that groups every chain to the
  right, which is the tree the converter reads from the bare rendering.
\<close>

fun needs_no_parens :: "expr \<Rightarrow> bool" where
  "needs_no_parens (Lit b l) = True"
| "needs_no_parens (Var x) = True"
| "needs_no_parens (Neg l e) = (needs_no_parens e \<and> level e = 0)"
| "needs_no_parens (Bin b l e1 e2) =
     (needs_no_parens e1 \<and> needs_no_parens e2
      \<and> (level e1 < rank (bin_prec b) \<or> (level e1 = rank (bin_prec b) \<and> b \<noteq> Impl))
      \<and> level e2 \<le> rank (bin_prec b))"

fun graft :: "binop \<Rightarrow> string \<Rightarrow> expr \<Rightarrow> expr \<Rightarrow> expr" where
  "graft b l (Bin b' l' e1 e2) r =
     (if b' = b then Bin b' l' e1 (graft b l e2 r) else Bin b l (Bin b' l' e1 e2) r)"
| "graft b l e r = Bin b l e r"

fun regroup :: "expr \<Rightarrow> expr" where
  "regroup (Lit b l) = Lit b l"
| "regroup (Var x) = Var x"
| "regroup (Neg l e) = Neg l (regroup e)"
| "regroup (Bin b l e1 e2) = graft b l (regroup e1) (regroup e2)"

text \<open>
  The number of operands a postfix sequence leaves on a stack of \<open>n\<close> operands, or
  \<open>None\<close> when an operator finds too few. A postfix sequence is well formed when it
  leaves exactly one operand on the empty stack.
\<close>

fun stack_depth :: "Token list \<Rightarrow> nat \<Rightarrow> nat option" where
  "stack_depth [] n = Some n"
| "stack_depth (t # ts) n =
     (if type t = TRUTH_VALUE \<or> type t = PROPOSITION then stack_depth ts (Suc n)
      else if type t = NEGATION then (if 1 \<le> n then stack_depth ts n else None)
      else if isOperator t then (if 2 \<le> n then stack_depth ts (n - 1) else None)
      else stack_depth ts n)"

text \<open>
  Parentheses are balanced when no right parenthesis comes before its left one and all
  are closed at the end. \<open>paren_depth\<close> counts the parentheses open after the sequence,
  starting from \<open>d\<close> open ones.
\<close>

fun paren_depth :: "Token list \<Rightarrow> nat \<Rightarrow> nat option" where
  "paren_depth [] d = Some d"
| "paren_depth (t # ts) d =
     (if type t = LPAREN then paren_depth ts (Suc d)
      else if type t = RPAREN then (case d of 0 \<Rightarrow> None | Suc d' \<Rightarrow> paren_depth ts d')
      else paren_depth ts d)"

definition balanced :: "Token list \<Rightarrow> bool" where
  "balanced ts = (paren_depth ts 0 = Some 0)"

definition is_paren :: "Token \<Rightarrow> bool" where
  "is_paren t = (type t = LPAREN \<or> type t = RPAREN)"

text \<open>
  The variable names of a token sequence in the order of their first occurrence, and
  the characters for which the scanner has a case label of its own.
\<close>

fun first_occurrences :: "string list \<Rightarrow> string list" where
  "first_occurrences [] = []"
| "first_occurrences (x # xs) = x # filter (\<lambda>y. y \<noteq> x) (first_occurrences xs)"

definition variable_lexemes :: "Token list \<Rightarrow> string list" where
  "variable_lexemes ts = map lexeme (filter (\<lambda>t. type t = PROPOSITION) ts)"

definition reserved :: "char set" where
  "reserved = set ''01FT()^*v+!~-< ''"

text \<open>
  Two notions used in the proofs only. An operator stack has room for an expression of
  level \<open>n\<close> when its top does not bind tighter than \<open>n\<close>, so that no operator of the
  expression pops it. \<open>scan_step\<close> is the body of the loop of \<^verbatim>\<open>scanTokens\<close>.
\<close>

definition fits :: "int \<Rightarrow> Token list \<Rightarrow> bool" where
  "fits n ops = (case ops of [] \<Rightarrow> True | t # _ \<Rightarrow> n \<le> rank (precedence t))"

definition scan_step :: "Lexer \<Rightarrow> Lexer" where
  "scan_step lx = scanToken (lx\<lparr>start_position := current_position lx\<rparr>)"

text \<open>
  The invariant of the scanning loop: every token carries the precedence of its type,
  every entry of the registry is the variable token of a single character without a case
  label, stored under that character, the keys ascend strictly, and they are the
  variable lexemes of the tokens scanned so far.
\<close>

definition lexer_inv :: "Lexer \<Rightarrow> bool" where
  "lexer_inv lx =
     ((\<forall>t \<in> set (tokens lx). scanned t)
      \<and> (\<forall>kt \<in> set (proposition_tokens lx).
            snd kt = var_tok (fst kt) \<and> (\<exists>c. fst kt = [c] \<and> c \<notin> reserved))
      \<and> sorted_wrt (<) (map fst (proposition_tokens lx))
      \<and> fst ` set (proposition_tokens lx) = set (variable_lexemes (tokens lx)))"

text \<open>
  The table the driver is expected to print: row \<open>k\<close> binds the registry with counter
  \<open>k\<close>, lists the bound values and gives the value the evaluator leaves on the empty
  stack. \<open>vars_bound\<close> says that every variable token of a sequence has its lexeme as
  a key of the registry, and \<open>all_variables\<close> that every entry of the registry is a
  variable token.
\<close>

definition row_value :: "Token list \<Rightarrow> registry \<Rightarrow> bool" where
  "row_value pf props = (case eval_postfix pf ([], props) of Inr (b # _, _) \<Rightarrow> b | _ \<Rightarrow> False)"

definition expected_row :: "Token list \<Rightarrow> registry \<Rightarrow> nat \<Rightarrow> row" where
  "expected_row pf props k =
     (let bound = assign (int k) (int (length props) - 1) props
      in (map (\<lambda>x. val (snd x)) bound, row_value pf bound))"

definition vars_bound :: "Token list \<Rightarrow> registry \<Rightarrow> bool" where
  "vars_bound pf props = (\<forall>t \<in> set pf. type t = PROPOSITION \<longrightarrow> lexeme t \<in> fst ` set props)"

definition all_variables :: "registry \<Rightarrow> bool" where
  "all_variables props = list_all (\<lambda>kt. type (snd kt) = PROPOSITION) props"

text \<open>An expression with 31 distinct variables, in parentheses.\<close>

definition thirty_one_variables :: string where
  "thirty_one_variables = ''(a^b^c^d^e^f^g^h^i^j^k^l^m^n^o^p^q^r^s^t^u^w^x^y^z^A^B^C^D^E^G)''"

text \<open>
  The number of left parentheses on an operator stack, and a token sequence without its
  parentheses.
\<close>

definition open_parens :: "Token list \<Rightarrow> nat" where
  "open_parens ops = length (filter (\<lambda>t. type t = LPAREN) ops)"

definition no_parens :: "Token list \<Rightarrow> Token list" where
  "no_parens ts = filter (\<lambda>t. \<not> is_paren t) ts"

section \<open>Facts about tokens\<close>

lemma tok_type [simp]:
  "type (lit_tok b l) = TRUTH_VALUE" "type (var_tok x) = PROPOSITION"
  "type (neg_tok l) = NEGATION" "type (bin_tok bo l) = bin_type bo"
  "type lparen_tok = LPAREN" "type rparen_tok = RPAREN"
  by (simp_all add: lit_tok_def var_tok_def neg_tok_def bin_tok_def lparen_tok_def
      rparen_tok_def mkToken_def)

lemma tok_prec [simp]:
  "precedence (lit_tok b l) = NA" "precedence (var_tok x) = NA"
  "precedence (neg_tok l) = L1" "precedence (bin_tok bo l) = bin_prec bo"
  "precedence lparen_tok = NA" "precedence rparen_tok = NA"
  by (simp_all add: lit_tok_def var_tok_def neg_tok_def bin_tok_def lparen_tok_def
      rparen_tok_def mkToken_def)

lemma bin_type_facts [simp]:
  "bin_type bo \<noteq> LPAREN" "bin_type bo \<noteq> RPAREN" "bin_type bo \<noteq> TRUTH_VALUE"
  "bin_type bo \<noteq> PROPOSITION" "bin_type bo \<noteq> NEGATION"
  by (cases bo; simp)+

lemma isOperator_bin_tok [simp]: "isOperator (bin_tok bo l)"
  by (cases bo) simp_all

lemma isOperator_toks [simp]:
  "\<not> isOperator (lit_tok b l)" "\<not> isOperator (var_tok x)" "isOperator (neg_tok l)"
  "\<not> isOperator lparen_tok" "\<not> isOperator rparen_tok"
  by simp_all

lemma isOperator_not_paren: "isOperator t \<Longrightarrow> type t \<noteq> LPAREN \<and> type t \<noteq> RPAREN"
  by (cases "type t") simp_all

lemma isOperator_not_operand:
  "isOperator t \<Longrightarrow> type t \<noteq> TRUTH_VALUE \<and> type t \<noteq> PROPOSITION"
  by (cases "type t") simp_all

declare isOperator.simps [simp del]

lemma rank_bounds: "0 \<le> rank p" "rank p \<le> 5"
  by (cases p; simp)+

lemma rank_bin_prec: "1 \<le> rank (bin_prec bo)" "rank (bin_prec bo) \<le> 4"
  by (cases bo; simp)+

section \<open>The evaluator computes the standard semantics\<close>

lemma eval_postfix_append:
  "eval_postfix (xs @ ys) st =
     (case eval_postfix xs st of Inl e \<Rightarrow> Inl e | Inr st' \<Rightarrow> eval_postfix ys st')"
  by (induction xs arbitrary: st) (auto split: sum.splits)

lemma eval_lit: "eval_token (lit_tok b l) (st, props) = Inr (b # st, props)"
  by (simp add: eval_token_def lit_tok_def mkToken_def)

lemma eval_var:
  "x \<in> fst ` set props \<Longrightarrow>
   eval_token (var_tok x) (st, props) = Inr (binding props x # st, props)"
  by (auto simp: eval_token_def var_tok_def mkToken_def binding_def map_index_def
      split: option.splits dest: map_of_eq_None_iff [THEN iffD1])

lemma eval_neg: "eval_token (neg_tok l) (r # st, props) = Inr ((\<not> r) # st, props)"
  by (simp add: eval_token_def neg_tok_def mkToken_def solveUnary_def push_result_def)

lemma eval_bin:
  "eval_token (bin_tok bo l) (r # lft # st, props) = Inr (apply_bin bo lft r # st, props)"
  by (cases bo; cases lft; cases r)
     (simp_all add: eval_token_def bin_tok_def mkToken_def solveBinary_def push_result_def)

lemma eval_postfix_sem:
  "variables e \<subseteq> fst ` set props \<Longrightarrow>
   eval_postfix (postfix e) (st, props) = Inr (sem (binding props) e # st, props)"
proof (induction e arbitrary: st)
  case (Lit b l)
  show ?case by (simp add: eval_lit)
next
  case (Var x)
  then show ?case by (simp add: eval_var)
next
  case (Neg l e)
  then show ?case by (simp add: eval_postfix_append eval_neg)
next
  case (Bin bo l e1 e2)
  then show ?case by (simp add: eval_postfix_append eval_bin)
qed

text \<open>
  Claim C1. For every well-formed postfix sequence, which is the postfix rendering of
  an expression \<open>e\<close>, and every assignment held by the registry, the evaluator returns
  the standard semantics: a literal token pushes its constant, a variable token pushes
  the value bound to its name, a negation replaces the top operand by its complement,
  and a binary operator takes the right operand from the top of the stack and the left
  one from below it and pushes left AND right, left OR right, NOT left OR right, and
  left = right for the four operators; evaluating the whole sequence pushes the value
  of \<open>e\<close> onto the stack and leaves the registry as it was.
\<close>

theorem evaluator_standard_semantics:
  "eval_token (lit_tok b l) (operands, props) = Inr (b # operands, props)
   \<and> (x \<in> fst ` set props \<longrightarrow>
        eval_token (var_tok x) (operands, props) = Inr (binding props x # operands, props))
   \<and> eval_token (neg_tok l) (r # operands, props) = Inr ((\<not> r) # operands, props)
   \<and> eval_token (bin_tok Conj l) (r # lft # operands, props)
        = Inr ((lft \<and> r) # operands, props)
   \<and> eval_token (bin_tok Disj l) (r # lft # operands, props)
        = Inr ((lft \<or> r) # operands, props)
   \<and> eval_token (bin_tok Impl l) (r # lft # operands, props)
        = Inr ((\<not> lft \<or> r) # operands, props)
   \<and> eval_token (bin_tok Bicond l) (r # lft # operands, props)
        = Inr ((lft = r) # operands, props)
   \<and> (variables e \<subseteq> fst ` set props \<longrightarrow>
        eval_postfix (postfix e) (operands, props)
          = Inr (sem (binding props) e # operands, props))"
  using eval_bin [of Conj l r lft operands props] eval_bin [of Disj l r lft operands props]
    eval_bin [of Impl l r lft operands props] eval_bin [of Bicond l r lft operands props]
  by (simp add: eval_lit eval_var eval_neg eval_postfix_sem)

theorem evaluator_standard_semantics_witness:
  "''q'' \<in> fst ` set [(''p'', mkToken PROPOSITION NA True ''p''),
                        (''q'', mkToken PROPOSITION NA True ''q'')]
   \<and> variables (Bin Impl ''->'' (Var ''p'') (Neg ''~'' (Var ''q'')))
       \<subseteq> fst ` set [(''p'', mkToken PROPOSITION NA True ''p''),
                      (''q'', mkToken PROPOSITION NA True ''q'')]
   \<and> eval_token (var_tok ''q'')
        ([], [(''p'', mkToken PROPOSITION NA True ''p''),
              (''q'', mkToken PROPOSITION NA True ''q'')])
       = Inr ([True], [(''p'', mkToken PROPOSITION NA True ''p''),
                       (''q'', mkToken PROPOSITION NA True ''q'')])
   \<and> eval_token (bin_tok Impl ''->'')
        ([False, True], [(''p'', mkToken PROPOSITION NA True ''p''),
                         (''q'', mkToken PROPOSITION NA True ''q'')])
       = Inr ([False], [(''p'', mkToken PROPOSITION NA True ''p''),
                        (''q'', mkToken PROPOSITION NA True ''q'')])
   \<and> eval_postfix (postfix (Bin Impl ''->'' (Var ''p'') (Neg ''~'' (Var ''q''))))
        ([], [(''p'', mkToken PROPOSITION NA True ''p''),
              (''q'', mkToken PROPOSITION NA True ''q'')])
       = Inr ([False], [(''p'', mkToken PROPOSITION NA True ''p''),
                        (''q'', mkToken PROPOSITION NA True ''q'')])"
  using evaluator_standard_semantics
    [where b = True and l = "''->''" and operands = "[]"
       and props = "[(''p'', mkToken PROPOSITION NA True ''p''),
                     (''q'', mkToken PROPOSITION NA True ''q'')]"
       and x = "''q''" and r = False and lft = True
       and e = "Bin Impl ''->'' (Var ''p'') (Neg ''~'' (Var ''q''))"]
  by (simp add: binding_def mkToken_def)

section \<open>The converter on parenthesized and on bare expressions\<close>

lemma parenthesized_loop:
  "toPostFix_loop (parenthesized e @ rest) ops out = toPostFix_loop rest ops (out @ postfix e)"
proof (induction e arbitrary: rest ops out)
  case (Lit b l)
  show ?case by simp
next
  case (Var x)
  show ?case by simp
next
  case (Neg l e)
  show ?case by (simp add: Neg.IH)
next
  case (Bin bo l e1 e2)
  have "\<not> rank (bin_prec bo) > 5" using rank_bin_prec [of bo] by simp
  then show ?case by (simp add: Bin.IH)
qed

lemma toPostFix_parenthesized: "toPostFix (parenthesized e) = Inr (postfix e)"
  using parenthesized_loop [of e "[]" "[]" "[]"] by (simp add: toPostFix_def)

lemma pop_tighter_all:
  "\<forall>p \<in> set pending. rank (precedence p) < rank (precedence t) \<Longrightarrow>
   fits (rank (precedence t)) ops \<Longrightarrow>
   pop_tighter t (pending @ ops) out = (ops, out @ pending)"
proof (induction pending arbitrary: out)
  case Nil
  then show ?case by (cases ops) (auto simp: fits_def)
next
  case (Cons p pending)
  then show ?case by simp
qed

text \<open>
  Converting a bare expression leaves the operators of its right spine pending on the
  stack: the output then holds the rest of the postfix form.
\<close>

lemma bare_loop:
  "by_precedence e \<Longrightarrow> fits (level e) ops \<Longrightarrow>
   \<exists>pending pre.
     toPostFix_loop (bare e @ rest) ops out = toPostFix_loop rest (pending @ ops) (out @ pre)
     \<and> pre @ pending = postfix e
     \<and> (\<forall>p \<in> set pending. rank (precedence p) \<le> level e)"
proof (induction e arbitrary: rest ops out)
  case (Lit b l)
  show ?case by (rule exI [of _ "[]"], rule exI [of _ "[lit_tok b l]"]) simp
next
  case (Var x)
  show ?case by (rule exI [of _ "[]"], rule exI [of _ "[var_tok x]"]) simp
next
  case (Neg l e)
  from Neg.prems have wf: "by_precedence e" and lv: "level e = 0" by simp_all
  have "\<not> rank (precedence a) < 0" for a :: Token
    using rank_bounds(1) [of "precedence a"] by simp
  then have nopop: "pop_tighter (neg_tok l) ops out = (ops, out)"
    by (cases ops) simp_all
  have "fits (level e) (neg_tok l # ops)" by (simp add: fits_def lv)
  from Neg.IH [OF wf this, of rest out]
  obtain pending pre where
    run: "toPostFix_loop (bare e @ rest) (neg_tok l # ops) out
            = toPostFix_loop rest (pending @ neg_tok l # ops) (out @ pre)"
    and parts: "pre @ pending = postfix e"
    and low: "\<forall>p \<in> set pending. rank (precedence p) \<le> level e"
    by blast
  show ?case
  proof (rule exI [of _ "pending @ [neg_tok l]"], rule exI [of _ pre], intro conjI)
    show "toPostFix_loop (bare (Neg l e) @ rest) ops out
            = toPostFix_loop rest ((pending @ [neg_tok l]) @ ops) (out @ pre)"
      by (simp add: nopop run)
    show "pre @ pending @ [neg_tok l] = postfix (Neg l e)"
      using parts by simp
    show "\<forall>p \<in> set (pending @ [neg_tok l]). rank (precedence p) \<le> level (Neg l e)"
      using low lv by auto
  qed
next
  case (Bin bo l e1 e2)
  let ?t = "bin_tok bo l"
  from Bin.prems have wf1: "by_precedence e1" and wf2: "by_precedence e2"
    and lv1: "level e1 < rank (bin_prec bo)" and lv2: "level e2 \<le> rank (bin_prec bo)"
    and room: "fits (rank (bin_prec bo)) ops"
    by simp_all
  from room lv1 have "fits (level e1) ops"
    by (auto simp: fits_def split: list.splits)
  from Bin.IH(1) [OF wf1 this, of "?t # bare e2 @ rest" out]
  obtain pending1 pre1 where
    run1: "toPostFix_loop (bare e1 @ ?t # bare e2 @ rest) ops out
             = toPostFix_loop (?t # bare e2 @ rest) (pending1 @ ops) (out @ pre1)"
    and parts1: "pre1 @ pending1 = postfix e1"
    and low1: "\<forall>p \<in> set pending1. rank (precedence p) \<le> level e1"
    by blast
  from low1 lv1 have "\<forall>p \<in> set pending1. rank (precedence p) < rank (precedence ?t)"
    by auto
  moreover from room have "fits (rank (precedence ?t)) ops" by simp
  ultimately
  have pop: "pop_tighter ?t (pending1 @ ops) (out @ pre1) = (ops, (out @ pre1) @ pending1)"
    by (rule pop_tighter_all)
  from lv2 have "fits (level e2) (?t # ops)" by (simp add: fits_def)
  from Bin.IH(2) [OF wf2 this, of rest "out @ postfix e1"]
  obtain pending2 pre2 where
    run2: "toPostFix_loop (bare e2 @ rest) (?t # ops) (out @ postfix e1)
             = toPostFix_loop rest (pending2 @ ?t # ops) ((out @ postfix e1) @ pre2)"
    and parts2: "pre2 @ pending2 = postfix e2"
    and low2: "\<forall>p \<in> set pending2. rank (precedence p) \<le> level e2"
    by blast
  show ?case
  proof (rule exI [of _ "pending2 @ [?t]"], rule exI [of _ "postfix e1 @ pre2"], intro conjI)
    show "toPostFix_loop (bare (Bin bo l e1 e2) @ rest) ops out
            = toPostFix_loop rest ((pending2 @ [?t]) @ ops) (out @ postfix e1 @ pre2)"
      using run1 pop parts1 run2 by simp
    show "(postfix e1 @ pre2) @ pending2 @ [?t] = postfix (Bin bo l e1 e2)"
      using parts2 by simp
    show "\<forall>p \<in> set (pending2 @ [?t]). rank (precedence p) \<le> level (Bin bo l e1 e2)"
      using low2 lv2 by auto
  qed
qed

lemma toPostFix_bare: "by_precedence e \<Longrightarrow> toPostFix (bare e) = Inr (postfix e)"
proof -
  assume "by_precedence e"
  moreover have "fits (level e) []" by (simp add: fits_def)
  ultimately obtain pending pre where
    "toPostFix_loop (bare e @ []) [] [] = toPostFix_loop [] (pending @ []) ([] @ pre)"
    and "pre @ pending = postfix e"
    using bare_loop [of e "[]" "[]" "[]"] by blast
  then show ?thesis by (simp add: toPostFix_def)
qed

lemma rank_bin_prec_pos: "0 < rank (bin_prec bo)"
  by (cases bo) simp_all

lemma bin_prec_inj: "rank (bin_prec b) = rank (bin_prec b') \<Longrightarrow> b = b'"
  by (cases b; cases b') simp_all

lemma level_graft [simp]: "level (graft b l e r) = rank (bin_prec b)"
  by (induction b l e r rule: graft.induct) simp_all

lemma level_regroup [simp]: "level (regroup e) = level e"
  by (induction e) simp_all

lemma bare_graft [simp]: "bare (graft b l e r) = bare e @ [bin_tok b l] @ bare r"
  by (induction b l e r rule: graft.induct) simp_all

lemma bare_regroup [simp]: "bare (regroup e) = bare e"
  by (induction e) simp_all

lemma variables_graft [simp]: "variables (graft b l e r) = variables e \<union> variables r"
  by (induction b l e r rule: graft.induct) auto

lemma variables_regroup [simp]: "variables (regroup e) = variables e"
  by (induction e) simp_all

lemma apply_bin_assoc:
  "b \<noteq> Impl \<Longrightarrow> apply_bin b x (apply_bin b y z) = apply_bin b (apply_bin b x y) z"
  by (cases b) auto

lemma sem_graft:
  "b \<noteq> Impl \<or> level e < rank (bin_prec b) \<Longrightarrow>
   sem env (graft b l e r) = apply_bin b (sem env e) (sem env r)"
proof (induction b l e r rule: graft.induct)
  case (1 b l b' l' e1 e2 r)
  show ?case
  proof (cases "b' = b")
    case True
    with "1.prems" have assoc: "b \<noteq> Impl" by auto
    with "1.IH" True have "sem env (graft b l e2 r) = apply_bin b (sem env e2) (sem env r)"
      by simp
    with True assoc show ?thesis by (simp add: apply_bin_assoc)
  next
    case False
    then show ?thesis by simp
  qed
qed simp_all

lemma by_precedence_graft:
  "by_precedence e \<Longrightarrow> by_precedence r \<Longrightarrow> level e \<le> rank (bin_prec b) \<Longrightarrow>
   level r \<le> rank (bin_prec b) \<Longrightarrow> by_precedence (graft b l e r)"
proof (induction b l e r rule: graft.induct)
  case (1 b l b' l' e1 e2 r)
  show ?case
  proof (cases "b' = b")
    case True
    with "1.prems" "1.IH" show ?thesis by simp
  next
    case False
    with "1.prems"(3) bin_prec_inj [of b' b] have "rank (bin_prec b') < rank (bin_prec b)"
      by force
    with False "1.prems" show ?thesis by simp
  qed
qed (simp_all add: rank_bin_prec_pos)

lemma sem_regroup: "needs_no_parens e \<Longrightarrow> sem env (regroup e) = sem env e"
proof (induction e)
  case (Bin b l e1 e2)
  then have "b \<noteq> Impl \<or> level (regroup e1) < rank (bin_prec b)" by auto
  from sem_graft [OF this] Bin show ?case by simp
qed simp_all

lemma by_precedence_regroup: "needs_no_parens e \<Longrightarrow> by_precedence (regroup e)"
proof (induction e)
  case (Bin b l e1 e2)
  then have "by_precedence (regroup e1)" "by_precedence (regroup e2)"
    "level (regroup e1) \<le> rank (bin_prec b)" "level (regroup e2) \<le> rank (bin_prec b)"
    by auto
  then show ?case by (simp add: by_precedence_graft)
qed simp_all

lemma by_precedence_needs_no_parens: "by_precedence e \<Longrightarrow> needs_no_parens e"
  by (induction e) auto

text \<open>
  Claim C3. Round trip: let \<open>e\<close> be an expression that can be written without
  parentheses under the precedence order Negation, Conjunction, Disjunction,
  Implication, Biconditional (tightest first; a chain of implications grouping to the
  right, chains of the three associative operators grouped in any way). Then under
  every assignment of its variables, converting the fully parenthesized rendering of
  \<open>e\<close> to postfix form and evaluating it yields the same result as converting and
  evaluating the rendering without any parentheses, and that result is the value of
  \<open>e\<close>.
\<close>

theorem round_trip_precedence:
  "needs_no_parens e \<Longrightarrow> variables e \<subseteq> fst ` set props \<Longrightarrow>
   \<exists>pf1 pf2.
     toPostFix (parenthesized e) = Inr pf1 \<and> toPostFix (bare e) = Inr pf2
     \<and> eval_postfix pf1 ([], props) = Inr ([sem (binding props) e], props)
     \<and> eval_postfix pf2 ([], props) = eval_postfix pf1 ([], props)"
proof -
  assume tree: "needs_no_parens e" and bound: "variables e \<subseteq> fst ` set props"
  have full: "toPostFix (parenthesized e) = Inr (postfix e)"
    by (rule toPostFix_parenthesized)
  from tree have "by_precedence (regroup e)" by (rule by_precedence_regroup)
  then have "toPostFix (bare (regroup e)) = Inr (postfix (regroup e))"
    by (rule toPostFix_bare)
  then have plain: "toPostFix (bare e) = Inr (postfix (regroup e))" by simp
  from bound have v1: "eval_postfix (postfix e) ([], props)
      = Inr ([sem (binding props) e], props)"
    by (rule eval_postfix_sem)
  from bound have "eval_postfix (postfix (regroup e)) ([], props)
      = Inr ([sem (binding props) (regroup e)], props)"
    by (intro eval_postfix_sem) simp
  with tree have v2: "eval_postfix (postfix (regroup e)) ([], props)
      = Inr ([sem (binding props) e], props)"
    by (simp add: sem_regroup)
  from full plain v1 v2 show ?thesis by simp
qed

theorem round_trip_precedence_witness:
  "needs_no_parens
     (Bin Impl ''->'' (Bin Conj ''^'' (Bin Conj ''^'' (Var ''p'') (Var ''q''))
                                      (Neg ''~'' (Var ''r''))) (Var ''s''))
   \<and> variables
       (Bin Impl ''->'' (Bin Conj ''^'' (Bin Conj ''^'' (Var ''p'') (Var ''q''))
                                        (Neg ''~'' (Var ''r''))) (Var ''s''))
       \<subseteq> fst ` set [(''p'', mkToken PROPOSITION NA True ''p''),
                      (''q'', mkToken PROPOSITION NA True ''q''),
                      (''r'', mkToken PROPOSITION NA False ''r''),
                      (''s'', mkToken PROPOSITION NA False ''s'')]
   \<and> getTokens (Lexer_new ''(((p^q)^(~r))->s)'')
       = parenthesized
           (Bin Impl ''->'' (Bin Conj ''^'' (Bin Conj ''^'' (Var ''p'') (Var ''q''))
                                            (Neg ''~'' (Var ''r''))) (Var ''s''))
   \<and> getTokens (Lexer_new ''p^q^~r->s'')
       = bare
           (Bin Impl ''->'' (Bin Conj ''^'' (Bin Conj ''^'' (Var ''p'') (Var ''q''))
                                            (Neg ''~'' (Var ''r''))) (Var ''s''))
   \<and> toPostFix (getTokens (Lexer_new ''(((p^q)^(~r))->s)''))
       = Inr [var_tok ''p'', var_tok ''q'', bin_tok Conj ''^'', var_tok ''r'', neg_tok ''~'',
              bin_tok Conj ''^'', var_tok ''s'', bin_tok Impl ''->'']
   \<and> toPostFix (getTokens (Lexer_new ''p^q^~r->s''))
       = Inr [var_tok ''p'', var_tok ''q'', var_tok ''r'', neg_tok ''~'', bin_tok Conj ''^'',
              bin_tok Conj ''^'', var_tok ''s'', bin_tok Impl ''->'']
   \<and> eval_postfix
        [var_tok ''p'', var_tok ''q'', bin_tok Conj ''^'', var_tok ''r'', neg_tok ''~'',
         bin_tok Conj ''^'', var_tok ''s'', bin_tok Impl ''->'']
        ([], [(''p'', mkToken PROPOSITION NA True ''p''),
              (''q'', mkToken PROPOSITION NA True ''q''),
              (''r'', mkToken PROPOSITION NA False ''r''),
              (''s'', mkToken PROPOSITION NA False ''s'')])
       = Inr ([False], [(''p'', mkToken PROPOSITION NA True ''p''),
                        (''q'', mkToken PROPOSITION NA True ''q''),
                        (''r'', mkToken PROPOSITION NA False ''r''),
                        (''s'', mkToken PROPOSITION NA False ''s'')])
   \<and> eval_postfix
        [var_tok ''p'', var_tok ''q'', var_tok ''r'', neg_tok ''~'', bin_tok Conj ''^'',
         bin_tok Conj ''^'', var_tok ''s'', bin_tok Impl ''->'']
        ([], [(''p'', mkToken PROPOSITION NA True ''p''),
              (''q'', mkToken PROPOSITION NA True ''q''),
              (''r'', mkToken PROPOSITION NA False ''r''),
              (''s'', mkToken PROPOSITION NA False ''s'')])
       = Inr ([False], [(''p'', mkToken PROPOSITION NA True ''p''),
                        (''q'', mkToken PROPOSITION NA True ''q''),
                        (''r'', mkToken PROPOSITION NA False ''r''),
                        (''s'', mkToken PROPOSITION NA False ''s'')])"
proof -
  let ?e = "Bin Impl ''->'' (Bin Conj ''^'' (Bin Conj ''^'' (Var ''p'') (Var ''q''))
                                            (Neg ''~'' (Var ''r''))) (Var ''s'')"
  let ?props = "[(''p'', mkToken PROPOSITION NA True ''p''),
                 (''q'', mkToken PROPOSITION NA True ''q''),
                 (''r'', mkToken PROPOSITION NA False ''r''),
                 (''s'', mkToken PROPOSITION NA False ''s'')]"
  let ?pf1 = "[var_tok ''p'', var_tok ''q'', bin_tok Conj ''^'', var_tok ''r'', neg_tok ''~'',
               bin_tok Conj ''^'', var_tok ''s'', bin_tok Impl ''->'']"
  let ?pf2 = "[var_tok ''p'', var_tok ''q'', var_tok ''r'', neg_tok ''~'', bin_tok Conj ''^'',
               bin_tok Conj ''^'', var_tok ''s'', bin_tok Impl ''->'']"
  have tree: "needs_no_parens ?e" by simp
  have bound: "variables ?e \<subseteq> fst ` set ?props" by simp
  have scan1: "getTokens (Lexer_new ''(((p^q)^(~r))->s)'') = parenthesized ?e"
    by code_simp
  have scan2: "getTokens (Lexer_new ''p^q^~r->s'') = bare ?e"
    by code_simp
  have conv1: "toPostFix (parenthesized ?e) = Inr ?pf1"
    by code_simp
  have conv2: "toPostFix (bare ?e) = Inr ?pf2"
    by code_simp
  have val: "sem (binding ?props) ?e = False"
    by (simp add: binding_def mkToken_def)
  from round_trip_precedence [OF tree bound] conv1 conv2
  have "eval_postfix ?pf1 ([], ?props) = Inr ([sem (binding ?props) ?e], ?props)"
    and "eval_postfix ?pf2 ([], ?props) = eval_postfix ?pf1 ([], ?props)"
    by auto
  with val have "eval_postfix ?pf1 ([], ?props) = Inr ([False], ?props)"
    and "eval_postfix ?pf2 ([], ?props) = Inr ([False], ?props)"
    by simp_all
  with tree bound scan1 scan2 conv1 conv2 show ?thesis by simp
qed

text \<open>
  A chain of implications is the one case in which the grouping matters: the converter
  reads \<^verbatim>\<open>p->q->r\<close> as \<^verbatim>\<open>(p->(q->r))\<close>, and with all three variables false this is true
  while \<^verbatim>\<open>((p->q)->r)\<close> is false.
\<close>

lemma implication_chain_groups_right:
  "toPostFix (getTokens (Lexer_new ''p->q->r''))
     = toPostFix (getTokens (Lexer_new ''(p->(q->r))''))
   \<and> toPostFix (getTokens (Lexer_new ''p->q->r''))
       = Inr [var_tok ''p'', var_tok ''q'', var_tok ''r'', bin_tok Impl ''->'',
              bin_tok Impl ''->'']
   \<and> eval_postfix
        [var_tok ''p'', var_tok ''q'', var_tok ''r'', bin_tok Impl ''->'', bin_tok Impl ''->'']
        ([], getPropositionTokens (Lexer_new ''p->q->r''))
       = Inr ([True], getPropositionTokens (Lexer_new ''p->q->r''))
   \<and> toPostFix (getTokens (Lexer_new ''((p->q)->r)''))
       = Inr [var_tok ''p'', var_tok ''q'', bin_tok Impl ''->'', var_tok ''r'',
              bin_tok Impl ''->'']
   \<and> eval_postfix
        [var_tok ''p'', var_tok ''q'', bin_tok Impl ''->'', var_tok ''r'', bin_tok Impl ''->'']
        ([], getPropositionTokens (Lexer_new ''p->q->r''))
       = Inr ([False], getPropositionTokens (Lexer_new ''p->q->r''))"
  by code_simp

section \<open>What the scanner maintains\<close>

lemma keys_map_insert: "fst ` set (map_insert k v m) = insert k (fst ` set m)"
proof (induction m)
  case Nil
  show ?case by simp
next
  case (Cons kv m)
  then show ?case by (cases kv) (simp add: insert_commute)
qed

lemma set_map_insert: "set (map_insert k v m) \<subseteq> insert (k, v) (set m)"
proof (induction m)
  case Nil
  show ?case by simp
next
  case (Cons kv m)
  then show ?case by (cases kv) auto
qed

lemma sorted_map_insert:
  "sorted_wrt (<) (map fst m) \<Longrightarrow> sorted_wrt (<) (map fst (map_insert k v m))"
proof (induction m)
  case Nil
  show ?case by simp
next
  case (Cons kv m)
  obtain k' v' where kv: "kv = (k', v')" by (cases kv)
  show ?case
  proof (cases "k = k' \<or> k < k'")
    case True
    with Cons.prems kv show ?thesis by auto
  next
    case False
    then have "k' < k" by auto
    moreover have "fst ` set (map_insert k v m) = insert k (fst ` set m)"
      by (rule keys_map_insert)
    ultimately show ?thesis
      using Cons kv False by auto
  qed
qed

lemma scan_step_effect:
  "(tokens (scan_step lx) = tokens lx
      \<and> proposition_tokens (scan_step lx) = proposition_tokens lx)
   \<or> (\<exists>t. scanned t \<and> type t \<noteq> PROPOSITION
         \<and> tokens (scan_step lx) = tokens lx @ [t]
         \<and> proposition_tokens (scan_step lx) = proposition_tokens lx)
   \<or> (\<exists>c. c \<notin> reserved
         \<and> tokens (scan_step lx) = tokens lx @ [var_tok [c]]
         \<and> proposition_tokens (scan_step lx)
             = map_insert [c] (var_tok [c]) (proposition_tokens lx))"
  unfolding scan_step_def scanToken_def
  by (simp add: Let_def matchNext_def addToken_def addToken_prec_def addToken_value_def
      getCurrentLexeme_def scanned_def mkToken_def var_tok_def reserved_def
      split: prod.splits bool.splits)

lemma scanned_var_tok: "scanned (var_tok x)"
  by (simp add: scanned_def)

lemma variable_lexemes_snoc:
  "variable_lexemes (ts @ [t])
     = variable_lexemes ts @ (if type t = PROPOSITION then [lexeme t] else [])"
  by (simp add: variable_lexemes_def)

lemma lexeme_var_tok [simp]: "lexeme (var_tok x) = x"
  by (simp add: var_tok_def mkToken_def)

lemma scan_step_inv: "lexer_inv lx \<Longrightarrow> lexer_inv (scan_step lx)"
proof -
  assume inv: "lexer_inv lx"
  from scan_step_effect [of lx] consider
    (skip) "tokens (scan_step lx) = tokens lx"
      "proposition_tokens (scan_step lx) = proposition_tokens lx"
  | (other) t where "scanned t" "type t \<noteq> PROPOSITION"
      "tokens (scan_step lx) = tokens lx @ [t]"
      "proposition_tokens (scan_step lx) = proposition_tokens lx"
  | (var) c where "c \<notin> reserved" "tokens (scan_step lx) = tokens lx @ [var_tok [c]]"
      "proposition_tokens (scan_step lx)
         = map_insert [c] (var_tok [c]) (proposition_tokens lx)"
    by blast
  then show ?thesis
  proof cases
    case skip
    with inv show ?thesis by (simp add: lexer_inv_def)
  next
    case other
    with inv show ?thesis by (simp add: lexer_inv_def variable_lexemes_snoc)
  next
    case var
    have entries: "\<forall>kt \<in> set (map_insert [c] (var_tok [c]) (proposition_tokens lx)).
        snd kt = var_tok (fst kt) \<and> (\<exists>c. fst kt = [c] \<and> c \<notin> reserved)"
    proof
      fix kt assume "kt \<in> set (map_insert [c] (var_tok [c]) (proposition_tokens lx))"
      with set_map_insert [of "[c]" "var_tok [c]" "proposition_tokens lx"]
      have "kt = ([c], var_tok [c]) \<or> kt \<in> set (proposition_tokens lx)" by auto
      with inv var(1) show "snd kt = var_tok (fst kt) \<and> (\<exists>c. fst kt = [c] \<and> c \<notin> reserved)"
        by (auto simp: lexer_inv_def)
    qed
    from inv var entries show ?thesis
      by (simp add: lexer_inv_def variable_lexemes_snoc scanned_var_tok sorted_map_insert
          keys_map_insert)
  qed
qed

lemma scanTokens_inv: "lexer_inv lx \<Longrightarrow> lexer_inv (scanTokens lx)"
proof (induction lx rule: scanTokens.induct)
  case (1 lx)
  show ?case
  proof (cases "endReached lx")
    case True
    with "1.prems" show ?thesis by (subst scanTokens.simps) simp
  next
    case False
    from "1.prems" have "lexer_inv (scan_step lx)" by (rule scan_step_inv)
    with "1.IH" [OF False] False show ?thesis
      by (subst scanTokens.simps) (simp add: scan_step_def)
  qed
qed

lemma Lexer_new_inv: "lexer_inv (Lexer_new s)"
  unfolding Lexer_new_def
  by (rule scanTokens_inv) (simp add: lexer_inv_def variable_lexemes_def)

lemma registry_key_shape:
  "k \<in> fst ` set (proposition_tokens (Lexer_new s)) \<Longrightarrow> \<exists>d. k = [d] \<and> d \<notin> reserved"
proof -
  assume "k \<in> fst ` set (proposition_tokens (Lexer_new s))"
  then obtain kt where "kt \<in> set (proposition_tokens (Lexer_new s))" and "k = fst kt"
    by blast
  with Lexer_new_inv [of s] show ?thesis
    unfolding lexer_inv_def by blast
qed

lemma registry_keys_lexemes:
  "fst ` set (proposition_tokens (Lexer_new s)) = set (variable_lexemes (tokens (Lexer_new s)))"
  using Lexer_new_inv [of s] by (simp add: lexer_inv_def)

text \<open>
  Claim C10. For every input string, the registry never has as a key a character that
  the scanner reads as a literal, an operator, a parenthesis or a space, i.e. one of
  \<^verbatim>\<open>0 1 F T ( ) ^ * v + ! ~ - <\<close> and the blank, and no variable token carries such a
  character as its lexeme; in particular \<^verbatim>\<open>v\<close> is never a propositional variable.
\<close>

theorem registry_keys_unreserved:
  "c \<in> reserved \<Longrightarrow>
   [c] \<notin> fst ` set (getPropositionTokens (Lexer_new s))
   \<and> [c] \<notin> set (variable_lexemes (getTokens (Lexer_new s)))"
proof -
  assume c: "c \<in> reserved"
  have "[c] \<notin> fst ` set (proposition_tokens (Lexer_new s))"
  proof
    assume "[c] \<in> fst ` set (proposition_tokens (Lexer_new s))"
    from registry_key_shape [OF this] c show False by simp
  qed
  then show ?thesis
    by (simp add: getPropositionTokens_def getTokens_def registry_keys_lexemes [symmetric])
qed

theorem registry_keys_unreserved_witness:
  "CHR ''v'' \<in> reserved
   \<and> getPropositionTokens (Lexer_new ''pvq'')
       = [(''p'', var_tok ''p''), (''q'', var_tok ''q'')]
   \<and> ''v'' \<notin> fst ` set (getPropositionTokens (Lexer_new ''pvq''))
   \<and> ''v'' \<notin> set (variable_lexemes (getTokens (Lexer_new ''pvq'')))"
proof -
  have r: "CHR ''v'' \<in> reserved" by (simp add: reserved_def)
  have scan: "getPropositionTokens (Lexer_new ''pvq'')
      = [(''p'', var_tok ''p''), (''q'', var_tok ''q'')]"
    by code_simp
  from r scan registry_keys_unreserved [OF r, of "''pvq''"] show ?thesis by simp
qed

section \<open>Machine arithmetic of the row loop\<close>

lemma shift_bound: "n < 31 \<Longrightarrow> sint (push_bit n 1 :: 32 word) = 2 ^ n"
proof -
  assume n: "n < 31"
  have "(push_bit n 1 :: 32 word) = 2 ^ n"
    by (simp add: push_bit_of_1)
  moreover have "sint (2 ^ n :: 32 word) = signed_take_bit 31 (2 ^ n :: int)"
    using sint_sbintrunc' [of "2 ^ n", where 'a = 32] by simp
  moreover have lt: "(2::int) ^ n < 2 ^ 31"
    by (rule power_strict_increasing) (use n in simp_all)
  have ge: "- (2 ^ 31) \<le> (2::int) ^ n"
    by (rule order_trans [of _ 0]) simp_all
  have "signed_take_bit 31 (2 ^ n :: int) = 2 ^ n"
    by (rule signed_take_bit_int_eq_self [OF ge lt])
  ultimately show ?thesis by simp
qed

lemma bit_test: "(1 = and (drop_bit n i) (1::int)) = bit i n"
  using bit_iff_and_drop_bit_eq_1 [of i n] by auto

section \<open>What the converter pops\<close>

lemma pop_tighter_split:
  "pop_tighter t ops out = (ops', out') \<Longrightarrow>
   \<exists>popped. ops = popped @ ops' \<and> out' = out @ popped
     \<and> (\<forall>p \<in> set popped. rank (precedence p) < rank (precedence t))"
proof (induction ops arbitrary: out)
  case Nil
  then show ?case by simp
next
  case (Cons p ops)
  show ?case
  proof (cases "rank (precedence t) > rank (precedence p)")
    case True
    with Cons.prems have "pop_tighter t ops (out @ [p]) = (ops', out')" by simp
    from Cons.IH [OF this] obtain popped where
      "ops = popped @ ops'" "out' = (out @ [p]) @ popped"
      "\<forall>q \<in> set popped. rank (precedence q) < rank (precedence t)"
      by blast
    with True show ?thesis
      by (intro exI [of _ "p # popped"]) simp
  next
    case False
    with Cons.prems show ?thesis by (intro exI [of _ "[]"]) simp
  qed
qed

lemma pop_to_lparen_split:
  "pop_to_lparen ops out = Inr (ops', out') \<Longrightarrow>
   \<exists>popped lp. ops = popped @ lp # ops' \<and> out' = out @ popped \<and> type lp = LPAREN
     \<and> (\<forall>p \<in> set popped. type p \<noteq> LPAREN)"
proof (induction ops arbitrary: out)
  case Nil
  then show ?case by simp
next
  case (Cons p ops)
  show ?case
  proof (cases "type p = LPAREN")
    case True
    with Cons.prems show ?thesis
      by (intro exI [of _ "[]"] exI [of _ p]) simp
  next
    case False
    with Cons.prems have "pop_to_lparen ops (out @ [p]) = Inr (ops', out')" by simp
    from Cons.IH [OF this] obtain popped lp where
      "ops = popped @ lp # ops'" "out' = (out @ [p]) @ popped" "type lp = LPAREN"
      "\<forall>q \<in> set popped. type q \<noteq> LPAREN"
      by blast
    with False show ?thesis
      by (intro exI [of _ "p # popped"] exI [of _ lp]) simp
  qed
qed

lemma toPostFix_loop_subset:
  "toPostFix_loop ts ops out = Inr pf \<Longrightarrow> set pf \<subseteq> set ts \<union> set ops \<union> set out"
proof (induction ts arbitrary: ops out)
  case Nil
  then show ?case by auto
next
  case (Cons t ts)
  show ?case
  proof (cases "isOperator t")
    case True
    obtain ops' out' where pt: "pop_tighter t ops out = (ops', out')"
      by (cases "pop_tighter t ops out")
    from pop_tighter_split [OF pt] have "set ops' \<union> set out' \<subseteq> set ops \<union> set out"
      by auto
    moreover from Cons.prems True pt have "toPostFix_loop ts (t # ops') out' = Inr pf"
      by simp
    from Cons.IH [OF this] have "set pf \<subseteq> set ts \<union> set (t # ops') \<union> set out'" .
    ultimately show ?thesis by auto
  next
    case False
    note not_op = this
    show ?thesis
    proof (cases "type t = LPAREN")
      case True
      with Cons.prems not_op have "toPostFix_loop ts (t # ops) out = Inr pf" by simp
      from Cons.IH [OF this] show ?thesis by auto
    next
      case False
      note not_lp = this
      show ?thesis
      proof (cases "type t = RPAREN")
        case True
        with Cons.prems not_op not_lp obtain ops' out' where
          pl: "pop_to_lparen ops out = Inr (ops', out')"
          and run: "toPostFix_loop ts ops' out' = Inr pf"
          by (auto split: sum.splits)
        from pop_to_lparen_split [OF pl] have "set ops' \<union> set out' \<subseteq> set ops \<union> set out"
          by auto
        with Cons.IH [OF run] show ?thesis by auto
      next
        case False
        with Cons.prems not_op not_lp have "toPostFix_loop ts ops (out @ [t]) = Inr pf"
          by simp
        from Cons.IH [OF this] show ?thesis by auto
      qed
    qed
  qed
qed

lemma toPostFix_subset: "toPostFix ts = Inr pf \<Longrightarrow> set pf \<subseteq> set ts"
  using toPostFix_loop_subset [of ts "[]" "[]" pf] by (simp add: toPostFix_def)

section \<open>The evaluator on bound variables and well-formed sequences\<close>

lemma map_index_key:
  "k \<in> fst ` set props \<Longrightarrow> \<exists>t. map_index props k = (t, props)"
  by (auto simp: map_index_def split: option.splits dest: map_of_eq_None_iff [THEN iffD1])

lemma eval_token_registry:
  "type t = PROPOSITION \<longrightarrow> lexeme t \<in> fst ` set props \<Longrightarrow>
   eval_token t (st, props) = Inr (st', props') \<Longrightarrow> props' = props"
proof (cases "type t = PROPOSITION")
  case True
  assume "type t = PROPOSITION \<longrightarrow> lexeme t \<in> fst ` set props"
    and step: "eval_token t (st, props) = Inr (st', props')"
  with True obtain tok where "map_index props (lexeme t) = (tok, props)"
    using map_index_key [of "lexeme t" props] by blast
  with True step show ?thesis by (simp add: eval_token_def)
next
  case False
  assume "eval_token t (st, props) = Inr (st', props')"
  with False show ?thesis
    by (cases "type t")
       (auto simp: eval_token_def push_result_def split: sum.splits prod.splits)
qed

lemma eval_postfix_registry:
  "vars_bound pf props \<Longrightarrow> eval_postfix pf (st, props) = Inr (st', props') \<Longrightarrow> props' = props"
proof (induction pf arbitrary: st)
  case Nil
  then show ?case by simp
next
  case (Cons t pf)
  from Cons.prems(2) obtain st1 props1 where
    step: "eval_token t (st, props) = Inr (st1, props1)"
    and run: "eval_postfix pf (st1, props1) = Inr (st', props')"
    by (auto split: sum.splits)
  from Cons.prems(1) have "type t = PROPOSITION \<longrightarrow> lexeme t \<in> fst ` set props"
    by (simp add: vars_bound_def)
  from eval_token_registry [OF this step] have "props1 = props" .
  with Cons.IH [of st1] Cons.prems(1) run show ?case by (simp add: vars_bound_def)
qed

lemma eval_token_depth:
  "stack_depth (t # ts) (length st) = Some m \<Longrightarrow>
   type t = PROPOSITION \<longrightarrow> lexeme t \<in> fst ` set props \<Longrightarrow>
   \<exists>st'. eval_token t (st, props) = Inr (st', props) \<and> stack_depth ts (length st') = Some m"
proof (cases "type t")
  case PROPOSITION
  assume "stack_depth (t # ts) (length st) = Some m"
    and "type t = PROPOSITION \<longrightarrow> lexeme t \<in> fst ` set props"
  with PROPOSITION map_index_key [of "lexeme t" props] show ?thesis
    by (auto simp: eval_token_def)
qed (cases st; cases "tl st";
     auto simp: eval_token_def push_result_def solveUnary_def solveBinary_def isOperator.simps
       split: if_splits)+

lemma eval_postfix_depth:
  "stack_depth pf (length st) = Some m \<Longrightarrow> vars_bound pf props \<Longrightarrow>
   \<exists>st'. eval_postfix pf (st, props) = Inr (st', props) \<and> length st' = m"
proof (induction pf arbitrary: st)
  case Nil
  then show ?case by simp
next
  case (Cons t pf)
  from Cons.prems(2) have "type t = PROPOSITION \<longrightarrow> lexeme t \<in> fst ` set props"
    and rest: "vars_bound pf props"
    by (simp_all add: vars_bound_def)
  from eval_token_depth [OF Cons.prems(1) this(1)] obtain st1 where
    step: "eval_token t (st, props) = Inr (st1, props)"
    and depth: "stack_depth pf (length st1) = Some m"
    by blast
  from Cons.IH [OF depth rest] step show ?case by simp
qed

section \<open>Binding a row\<close>

lemma assign_keys [simp]: "map fst (assign i j m) = map fst m"
  by (induction m arbitrary: j) auto

lemma assign_length [simp]: "length (assign i j m) = length m"
  by (induction m arbitrary: j) auto

lemma assign_all_variables: "all_variables m \<Longrightarrow> all_variables (assign i j m)"
  by (induction m arbitrary: j) (auto simp: all_variables_def setValue_def)

lemma all_variables_Cons [simp]:
  "all_variables ((k, t) # m) = (type t = PROPOSITION \<and> all_variables m)"
  by (simp add: all_variables_def)

lemma assign_assign: "all_variables m \<Longrightarrow> assign i' j' (assign i j m) = assign i' j' m"
  by (induction m arbitrary: j j') (auto simp: all_variables_def setValue_def)

lemma assign_nth:
  "all_variables m \<Longrightarrow> p < length m \<Longrightarrow>
   val (snd (assign i j m ! p)) = (\<not> bit i (nat (j - int p)))"
proof (induction m arbitrary: j p)
  case Nil
  then show ?case by simp
next
  case (Cons kt m)
  obtain k t where kt: "kt = (k, t)" by (cases kt)
  show ?case
  proof (cases p)
    case 0
    with Cons.prems kt show ?thesis
      by (simp add: all_variables_def setValue_def bit_test)
  next
    case (Suc q)
    with Cons.prems have "all_variables m" and "q < length m"
      by (simp_all add: all_variables_def)
    from Cons.IH [OF this, of "j - 1"] Suc kt show ?thesis
      by (simp add: algebra_simps)
  qed
qed

section \<open>The row loop\<close>

declare row_loop.simps [simp del]

lemma shift_bound_pow: "n < 31 \<Longrightarrow> sint (2 ^ n :: 32 word) = 2 ^ n"
  using shift_bound [of n] by (simp add: push_bit_of_1)

lemma row_loop_stop:
  "length props < 31 \<Longrightarrow> \<not> i < 2 ^ length props \<Longrightarrow>
   row_loop ts i props operands rows = Inr rows"
  by (subst row_loop.simps) (simp add: shift_bound shift_bound_pow)

lemma row_loop_step:
  "length props < 31 \<Longrightarrow> i < 2 ^ length props \<Longrightarrow> toPostFix ts = Inr pf \<Longrightarrow>
   eval_postfix pf (operands, assign i (int (length props) - 1) props)
     = Inr (b # rest, props2) \<Longrightarrow>
   row_loop ts i props operands rows
     = row_loop ts (i + 1) props2 rest
         (rows @ [(map (\<lambda>x. val (snd x)) (assign i (int (length props) - 1) props), b)])"
  by (subst row_loop.simps) (simp add: shift_bound shift_bound_pow Let_def)

lemma upt_map_step: "k < n \<Longrightarrow> map f [k..<n] = f k # map f [Suc k..<n]"
  by (simp add: upt_conv_Cons)

lemma vars_bound_assign: "vars_bound pf props \<Longrightarrow> vars_bound pf (assign i j props)"
proof -
  have "fst ` set (assign i j props) = fst ` set props"
    using assign_keys [of i j props] by (metis list.set_map)
  then show "vars_bound pf props \<Longrightarrow> vars_bound pf (assign i j props)"
    by (simp add: vars_bound_def)
qed

lemma row_loop_table:
  assumes conv: "toPostFix ts = Inr pf"
    and wf: "stack_depth pf 0 = Some 1"
    and bound: "vars_bound pf props0"
    and vars: "all_variables props0"
    and small: "length props0 \<le> 30"
  shows "length props = length props0 \<Longrightarrow> (\<forall>i j. assign i j props = assign i j props0) \<Longrightarrow>
         k \<le> 2 ^ length props0 \<Longrightarrow>
         row_loop ts (int k) props [] rows
           = Inr (rows @ map (expected_row pf props0) [k..<2 ^ length props0])"
proof (induction "2 ^ length props0 - k" arbitrary: k props rows)
  case 0
  then have "\<not> int k < 2 ^ length props"
    by (metis diff_is_0_eq not_less of_nat_le_iff of_nat_numeral of_nat_power)
  with small "0.prems"(1) have "row_loop ts (int k) props [] rows = Inr rows"
    by (intro row_loop_stop) simp_all
  with 0 show ?case by simp
next
  case (Suc d)
  let ?N = "length props0"
  let ?b = "assign (int k) (int ?N - 1) props0"
  from Suc.hyps(2) have k: "k < 2 ^ ?N" by simp
  then have ik: "int k < 2 ^ length props"
    using Suc.prems(1) by (metis of_nat_less_iff of_nat_numeral of_nat_power)
  have same: "assign (int k) (int (length props) - 1) props = ?b"
    using Suc.prems(1,2) by simp
  from eval_postfix_depth [of pf "[]" 1 ?b] wf vars_bound_assign [OF bound] obtain st' where
    ev: "eval_postfix pf ([], ?b) = Inr (st', ?b)" and "length st' = 1"
    by auto
  then obtain b where st': "st' = [b]" by (cases st') auto
  with ev have rv: "row_value pf ?b = b" by (simp add: row_value_def)
  have row: "expected_row pf props0 k = (map (\<lambda>x. val (snd x)) ?b, b)"
    by (simp add: expected_row_def Let_def rv)
  have next_same: "\<forall>i j. assign i j ?b = assign i j props0"
    using vars by (simp add: assign_assign)
  have "row_loop ts (int k) props [] rows
      = row_loop ts (int k + 1) ?b [] (rows @ [(map (\<lambda>x. val (snd x)) ?b, b)])"
    using row_loop_step [of props "int k" ts pf "[]" b "[]" ?b rows] small Suc.prems(1) ik
      conv ev st' same
    by simp
  also have "int k + 1 = int (Suc k)" by simp
  also have "row_loop ts (int (Suc k)) ?b [] (rows @ [(map (\<lambda>x. val (snd x)) ?b, b)])
      = Inr ((rows @ [(map (\<lambda>x. val (snd x)) ?b, b)])
             @ map (expected_row pf props0) [Suc k..<2 ^ ?N])"
    using Suc.hyps(2) k by (intro Suc.hyps(1) next_same) simp_all
  finally show ?case
    by (simp add: upt_map_step [OF k] row)
qed

lemma registry_all_variables: "all_variables (proposition_tokens (Lexer_new s))"
  using Lexer_new_inv [of s]
  by (simp add: lexer_inv_def all_variables_def list_all_iff)

lemma registry_sorted: "sorted_wrt (<) (map fst (proposition_tokens (Lexer_new s)))"
  using Lexer_new_inv [of s] by (simp add: lexer_inv_def)

lemma registry_size:
  "length (proposition_tokens (Lexer_new s))
     = card (set (variable_lexemes (tokens (Lexer_new s))))"
proof -
  have "distinct (map fst (proposition_tokens (Lexer_new s)))"
    using registry_sorted [of s] by (simp add: strict_sorted_iff)
  then have "card (set (map fst (proposition_tokens (Lexer_new s))))
      = length (map fst (proposition_tokens (Lexer_new s)))"
    by (rule distinct_card)
  then show ?thesis by (simp add: registry_keys_lexemes [symmetric])
qed

lemma tokens_vars_bound:
  "set pf \<subseteq> set (tokens (Lexer_new s)) \<Longrightarrow> vars_bound pf (proposition_tokens (Lexer_new s))"
  unfolding vars_bound_def registry_keys_lexemes variable_lexemes_def by auto



text \<open>Without variables the table has its single row.\<close>

lemma no_variables_one_row:
  "evaluate ''((1 * 0) + 1)'' = Inr (Table [] ''((1 * 0) + 1)'' [([], True)])"
  by code_simp


section \<open>The order of the columns\<close>

lemma row_loop_cases:
  "row_loop ts i props operands rows = Inr out \<Longrightarrow>
   out = rows
   \<or> (\<exists>pf b rest props2.
         i < 2 ^ 31 \<and> toPostFix ts = Inr pf
         \<and> eval_postfix pf (operands, assign i (int (length props) - 1) props)
             = Inr (b # rest, props2)
         \<and> row_loop ts (i + 1) props2 rest
             (rows @ [(map (\<lambda>x. val (snd x)) (assign i (int (length props) - 1) props), b)])
             = Inr out)"
proof -
  assume run: "row_loop ts i props operands rows = Inr out"
  have "i < 2 ^ 31" if "i < sint (push_bit (length props) 1 :: 32 word)"
    using that sint_lt [of "push_bit (length props) 1 :: 32 word"] by simp
  with run show ?thesis
    by (subst (asm) row_loop.simps)
       (auto simp: Let_def split: if_splits sum.splits list.splits prod.splits)
qed

lemma row_loop_rows:
  assumes closed: "\<forall>t \<in> set ts. type t = PROPOSITION \<longrightarrow> lexeme t \<in> set hdr"
  shows "row_loop ts i props operands rows = Inr out \<Longrightarrow> map fst props = hdr \<Longrightarrow>
         \<forall>r \<in> set rows. \<exists>pf props' operands operands'.
            toPostFix ts = Inr pf \<and> map fst props' = hdr
            \<and> fst r = map (\<lambda>x. val (snd x)) props'
            \<and> eval_postfix pf (operands, props') = Inr (snd r # operands', props') \<Longrightarrow>
         \<forall>r \<in> set out. \<exists>pf props' operands operands'.
            toPostFix ts = Inr pf \<and> map fst props' = hdr
            \<and> fst r = map (\<lambda>x. val (snd x)) props'
            \<and> eval_postfix pf (operands, props') = Inr (snd r # operands', props')"
proof (induction "nat (2 ^ 31 - i)" arbitrary: i props operands rows rule: less_induct)
  case less
  let ?b = "assign i (int (length props) - 1) props"
  from row_loop_cases [OF less.prems(1)] show ?case
  proof
    assume "out = rows"
    with less.prems(3) show ?thesis by simp
  next
    assume "\<exists>pf b rest props2.
         i < 2 ^ 31 \<and> toPostFix ts = Inr pf
         \<and> eval_postfix pf (operands, ?b) = Inr (b # rest, props2)
         \<and> row_loop ts (i + 1) props2 rest (rows @ [(map (\<lambda>x. val (snd x)) ?b, b)]) = Inr out"
    then obtain pf b rest props2 where
      i: "i < 2 ^ 31" and conv: "toPostFix ts = Inr pf"
      and ev: "eval_postfix pf (operands, ?b) = Inr (b # rest, props2)"
      and run: "row_loop ts (i + 1) props2 rest (rows @ [(map (\<lambda>x. val (snd x)) ?b, b)]) = Inr out"
      by blast
    have keys: "map fst ?b = hdr" using less.prems(2) by simp
    then have "fst ` set ?b = set hdr" by (metis list.set_map)
    with closed toPostFix_subset [OF conv] have "vars_bound pf ?b"
      by (auto simp: vars_bound_def)
    from eval_postfix_registry [OF this ev] have same: "props2 = ?b" .
    have "\<forall>r \<in> set (rows @ [(map (\<lambda>x. val (snd x)) ?b, b)]).
        \<exists>pf props' operands operands'.
            toPostFix ts = Inr pf \<and> map fst props' = hdr
            \<and> fst r = map (\<lambda>x. val (snd x)) props'
            \<and> eval_postfix pf (operands, props') = Inr (snd r # operands', props')"
    proof
      fix r assume "r \<in> set (rows @ [(map (\<lambda>x. val (snd x)) ?b, b)])"
      then consider "r \<in> set rows" | "r = (map (\<lambda>x. val (snd x)) ?b, b)" by auto
      then show "\<exists>pf props' operands operands'.
            toPostFix ts = Inr pf \<and> map fst props' = hdr
            \<and> fst r = map (\<lambda>x. val (snd x)) props'
            \<and> eval_postfix pf (operands, props') = Inr (snd r # operands', props')"
      proof cases
        case 1
        with less.prems(3) show ?thesis by blast
      next
        case 2
        with conv keys ev same show ?thesis
          by (intro exI [of _ pf] exI [of _ ?b] exI [of _ operands] exI [of _ rest]) simp
      qed
    qed
    moreover have "nat (2 ^ 31 - (i + 1)) < nat (2 ^ 31 - i)" using i by simp
    moreover have "map fst props2 = hdr" using same keys by simp
    ultimately show ?thesis
      using less.hyps [of "i + 1" props2 rest "rows @ [(map (\<lambda>x. val (snd x)) ?b, b)]"] run
      by blast
  qed
qed

text \<open>
  Claim C4, as amended. The columns are in ascending order of the variable names, not
  in the order of first occurrence: whenever a table is printed, its header lists the
  distinct variable names of the expression in strictly ascending order (the order of
  \<^verbatim>\<open>std::map\<close>, by byte value), and each row lists, in that same order of names, the
  values bound in the registry under which the result of the row was evaluated.
\<close>

theorem header_in_key_order:
  assumes "evaluate expression = Inr (Table hdr e rows)"
  shows "sorted_wrt (<) hdr
         \<and> set hdr = set (variable_lexemes (getTokens (Lexer_new expression)))
         \<and> (\<forall>r \<in> set rows. \<exists>pf props operands operands'.
               toPostFix (getTokens (Lexer_new expression)) = Inr pf
               \<and> map fst props = hdr
               \<and> fst r = map (\<lambda>x. val (snd x)) props
               \<and> eval_postfix pf (operands, props) = Inr (snd r # operands', props))"
proof -
  let ?ts = "tokens (Lexer_new expression)"
  let ?props = "proposition_tokens (Lexer_new expression)"
  from assms have hdr: "hdr = map fst ?props"
    and run: "row_loop ?ts 0 ?props [] [] = Inr rows"
    by (auto simp: evaluate_def Let_def getTokens_def getPropositionTokens_def
        split: if_splits sum.splits bool.splits)
  have sorted: "sorted_wrt (<) hdr"
    using registry_sorted [of expression] hdr by simp
  have keys: "set hdr = set (variable_lexemes ?ts)"
    using registry_keys_lexemes [of expression] hdr by simp
  then have closed: "\<forall>t \<in> set ?ts. type t = PROPOSITION \<longrightarrow> lexeme t \<in> set hdr"
    by (auto simp: variable_lexemes_def)
  from row_loop_rows [OF closed run hdr [symmetric]]
  have "\<forall>r \<in> set rows. \<exists>pf props operands operands'.
               toPostFix ?ts = Inr pf \<and> map fst props = hdr
               \<and> fst r = map (\<lambda>x. val (snd x)) props
               \<and> eval_postfix pf (operands, props) = Inr (snd r # operands', props)"
    by simp
  with sorted keys show ?thesis by (simp add: getTokens_def)
qed

theorem header_in_key_order_witness:
  "evaluate ''(q->p)''
     = Inr (Table [''p'', ''q''] ''(q->p)''
         [([True, True], True), ([True, False], True),
          ([False, True], False), ([False, False], True)])
   \<and> sorted_wrt (<) [''p'', ''q'']
   \<and> set [''p'', ''q''] = set (variable_lexemes (getTokens (Lexer_new ''(q->p)'')))"
proof -
  have ev: "evaluate ''(q->p)''
     = Inr (Table [''p'', ''q''] ''(q->p)''
         [([True, True], True), ([True, False], True),
          ([False, True], False), ([False, False], True)])"
    by code_simp
  from header_in_key_order [OF ev] ev show ?thesis by blast
qed

text \<open>
  The claim as stated fails where a later letter comes first in the text: for
  \<^verbatim>\<open>(q->p)\<close> the order of first occurrence is \<open>q\<close>, \<open>p\<close>, and the header is \<open>p\<close>, \<open>q\<close>
  (the second row binds \<open>p\<close> to true and \<open>q\<close> to false, and \<open>q -> p\<close> is true there).
\<close>

theorem column_order_counterexample:
  "evaluate ''(q->p)''
     = Inr (Table [''p'', ''q''] ''(q->p)''
         [([True, True], True), ([True, False], True),
          ([False, True], False), ([False, False], True)])
   \<and> first_occurrences (variable_lexemes (getTokens (Lexer_new ''(q->p)''))) = [''q'', ''p'']
   \<and> [''p'', ''q''] \<noteq> [''q'', ''p'']"
proof -
  have "evaluate ''(q->p)''
     = Inr (Table [''p'', ''q''] ''(q->p)''
         [([True, True], True), ([True, False], True),
          ([False, True], False), ([False, False], True)])"
    by code_simp
  moreover
  have "first_occurrences (variable_lexemes (getTokens (Lexer_new ''(q->p)''))) = [''q'', ''p'']"
    by code_simp
  ultimately show ?thesis by simp
qed

section \<open>The converter on balanced sequences\<close>

lemma scanned_lparen_rank: "scanned t \<Longrightarrow> type t = LPAREN \<Longrightarrow> rank (precedence t) = 5"
  by (simp add: scanned_def)

lemma no_parens_id: "\<forall>t \<in> set ts. \<not> is_paren t \<Longrightarrow> no_parens ts = ts"
  by (simp add: no_parens_def)

lemma no_parens_append [simp]: "no_parens (xs @ ys) = no_parens xs @ no_parens ys"
  by (simp add: no_parens_def)

lemma open_parens_append [simp]: "open_parens (xs @ ys) = open_parens xs + open_parens ys"
  by (simp add: open_parens_def)

lemma open_parens_none: "\<forall>t \<in> set ts. type t \<noteq> LPAREN \<Longrightarrow> open_parens ts = 0"
  by (simp add: open_parens_def)

lemma toPostFix_loop_balanced:
  "paren_depth ts (open_parens ops) = Some 0 \<Longrightarrow>
   \<forall>t \<in> set ts. scanned t \<Longrightarrow>
   \<forall>t \<in> set ops. scanned t \<and> type t \<noteq> RPAREN \<Longrightarrow>
   \<exists>pf. toPostFix_loop ts ops out = Inr pf
     \<and> mset pf = mset out + mset (no_parens ops) + mset (no_parens ts)"
proof (induction ts arbitrary: ops out)
  case Nil
  then have "open_parens ops = 0" by simp
  then have "\<forall>t \<in> set ops. type t \<noteq> LPAREN"
    by (auto simp: open_parens_def filter_empty_conv)
  with Nil.prems(3) have "no_parens ops = ops"
    by (intro no_parens_id) (simp add: is_paren_def)
  then show ?case by (simp add: no_parens_def)
next
  case (Cons t ts)
  from Cons.prems(2) have sc_t: "scanned t" and sc_ts: "\<forall>t \<in> set ts. scanned t"
    by simp_all
  show ?case
  proof (cases "isOperator t")
    case True
    then have np: "type t \<noteq> LPAREN" "type t \<noteq> RPAREN"
      using isOperator_not_paren [of t] by simp_all
    obtain ops' out' where pt: "pop_tighter t ops out = (ops', out')"
      by (cases "pop_tighter t ops out")
    from pop_tighter_split [OF pt] obtain popped where
      ops: "ops = popped @ ops'" and out': "out' = out @ popped"
      and tight: "\<forall>p \<in> set popped. rank (precedence p) < rank (precedence t)"
      by blast
    have "type p \<noteq> LPAREN" if "p \<in> set popped" for p
    proof
      assume "type p = LPAREN"
      moreover from that ops Cons.prems(3) have "scanned p" by simp
      ultimately have "rank (precedence p) = 5" by (simp add: scanned_lparen_rank)
      with tight that rank_bounds(2) [of "precedence t"] show False by force
    qed
    then have popped_lp: "\<forall>p \<in> set popped. type p \<noteq> LPAREN" by blast
    with ops Cons.prems(3) have popped_np: "\<forall>p \<in> set popped. \<not> is_paren p"
      by (auto simp: is_paren_def)
    have depth: "paren_depth ts (open_parens (t # ops')) = Some 0"
      using Cons.prems(1) np ops open_parens_none [OF popped_lp]
      by (simp add: open_parens_def)
    have stack: "\<forall>u \<in> set (t # ops'). scanned u \<and> type u \<noteq> RPAREN"
      using Cons.prems(3) ops sc_t np by simp
    from Cons.IH [OF depth sc_ts stack, of out'] obtain pf where
      run: "toPostFix_loop ts (t # ops') out' = Inr pf"
      and ms: "mset pf = mset out' + mset (no_parens (t # ops')) + mset (no_parens ts)"
      by blast
    have "toPostFix_loop (t # ts) ops out = Inr pf"
      using True pt run by simp
    moreover have "mset pf = mset out + mset (no_parens ops) + mset (no_parens (t # ts))"
      using ms ops out' np no_parens_id [OF popped_np]
      by (simp add: no_parens_def is_paren_def)
    ultimately show ?thesis by blast
  next
    case False
    note not_op = this
    show ?thesis
    proof (cases "type t = LPAREN")
      case True
      have depth: "paren_depth ts (open_parens (t # ops)) = Some 0"
        using Cons.prems(1) True by (simp add: open_parens_def)
      have stack: "\<forall>u \<in> set (t # ops). scanned u \<and> type u \<noteq> RPAREN"
        using Cons.prems(3) sc_t True by simp
      from Cons.IH [OF depth sc_ts stack, of out] obtain pf where
        "toPostFix_loop ts (t # ops) out = Inr pf"
        "mset pf = mset out + mset (no_parens (t # ops)) + mset (no_parens ts)"
        by blast
      with not_op True show ?thesis
        by (simp add: no_parens_def is_paren_def)
    next
      case False
      note not_lp = this
      show ?thesis
      proof (cases "type t = RPAREN")
        case True
        from Cons.prems(1) True not_lp obtain d where
          d: "open_parens ops = Suc d" and depth: "paren_depth ts d = Some 0"
          by (auto split: nat.splits)
        have "\<exists>popped lp ops'. ops = popped @ lp # ops' \<and> type lp = LPAREN
            \<and> (\<forall>p \<in> set popped. type p \<noteq> LPAREN)"
        proof -
          from d have "filter (\<lambda>t. type t = LPAREN) ops \<noteq> []"
            by (auto simp: open_parens_def)
          then obtain lp where "lp \<in> set ops" "type lp = LPAREN"
            by (auto simp: filter_empty_conv)
          then have "\<exists>x \<in> set ops. type x = LPAREN" by blast
          from split_list_first_prop [OF this] show ?thesis by blast
        qed
        then obtain popped lp ops' where
          ops: "ops = popped @ lp # ops'" and lp: "type lp = LPAREN"
          and popped_lp: "\<forall>p \<in> set popped. type p \<noteq> LPAREN"
          by blast
        have pl: "pop_to_lparen (popped @ lp # ops') acc = Inr (ops', acc @ popped)" for acc
          using popped_lp lp by (induction popped arbitrary: acc) simp_all
        from ops Cons.prems(3) popped_lp have popped_np: "\<forall>p \<in> set popped. \<not> is_paren p"
          by (auto simp: is_paren_def)
        have depth': "paren_depth ts (open_parens ops') = Some 0"
          using d depth ops lp open_parens_none [OF popped_lp]
          by (simp add: open_parens_def)
        have stack: "\<forall>u \<in> set ops'. scanned u \<and> type u \<noteq> RPAREN"
          using Cons.prems(3) ops by simp
        from Cons.IH [OF depth' sc_ts stack, of "out @ popped"] obtain pf where
          run: "toPostFix_loop ts ops' (out @ popped) = Inr pf"
          and ms: "mset pf = mset (out @ popped) + mset (no_parens ops') + mset (no_parens ts)"
          by blast
        have "toPostFix_loop (t # ts) ops out = Inr pf"
          using not_op not_lp True pl [of out] run ops by simp
        moreover have "mset pf = mset out + mset (no_parens ops) + mset (no_parens (t # ts))"
          using ms ops lp True no_parens_id [OF popped_np]
          by (simp add: no_parens_def is_paren_def)
        ultimately show ?thesis by blast
      next
        case False
        have depth: "paren_depth ts (open_parens ops) = Some 0"
          using Cons.prems(1) not_lp False by simp
        from Cons.IH [OF depth sc_ts Cons.prems(3), of "out @ [t]"] obtain pf where
          "toPostFix_loop ts ops (out @ [t]) = Inr pf"
          "mset pf = mset (out @ [t]) + mset (no_parens ops) + mset (no_parens ts)"
          by blast
        with not_op not_lp False show ?thesis
          by (simp add: no_parens_def is_paren_def)
      qed
    qed
  qed
qed

lemma toPostFix_balanced:
  "balanced ts \<Longrightarrow> \<forall>t \<in> set ts. scanned t \<Longrightarrow>
   \<exists>pf. toPostFix ts = Inr pf \<and> mset pf = mset (no_parens ts)
     \<and> (\<forall>t \<in> set pf. \<not> is_paren t)"
proof -
  assume "balanced ts" and sc: "\<forall>t \<in> set ts. scanned t"
  then have "paren_depth ts (open_parens []) = Some 0"
    by (simp add: balanced_def open_parens_def)
  from toPostFix_loop_balanced [OF this sc, of "[]"] obtain pf where
    run: "toPostFix ts = Inr pf" and ms: "mset pf = mset (no_parens ts)"
    by (auto simp: toPostFix_def no_parens_def)
  from ms have "set pf = set (no_parens ts)" by (rule mset_eq_setD)
  then have "\<forall>t \<in> set pf. \<not> is_paren t" by (simp add: no_parens_def)
  with run ms show ?thesis by blast
qed

lemma scanned_tokens: "\<forall>t \<in> set (getTokens (Lexer_new s)). scanned t"
  using Lexer_new_inv [of s] by (simp add: lexer_inv_def getTokens_def)

section \<open>Inputs on which the program does not do what is claimed\<close>

text \<open>
  Claim C5 says that for every token sequence the validator accepts, evaluating the
  postfix form never pops an empty operand stack and leaves exactly one value. The
  program does not keep it. The validator accepts \<^verbatim>\<open>(p ^)\<close>, reading inside the sequence
  only: the test for \<^verbatim>\<open>^\<close> passes because the token before it is a variable. The
  postfix form is \<open>p ^\<close>, and at \<^verbatim>\<open>^\<close> the evaluator takes the right operand and then
  reads the top of the empty stack. The validator also accepts \<^verbatim>\<open>(p)(q)\<close>, whose
  postfix form \<open>p q\<close> leaves two values on the stack.
\<close>

theorem accepted_sequence_underflows:
  "validateTokenString (getTokens (Lexer_new ''(p ^)'')) = Inr True
   \<and> toPostFix (getTokens (Lexer_new ''(p ^)'')) = Inr [var_tok ''p'', bin_tok Conj ''^'']
   \<and> eval_postfix [var_tok ''p'', bin_tok Conj ''^'']
        ([], getPropositionTokens (Lexer_new ''(p ^)'')) = Inl EmptyStack
   \<and> evaluate ''(p ^)'' = Inl EmptyStack
   \<and> validateTokenString (getTokens (Lexer_new ''(p)(q)'')) = Inr True
   \<and> toPostFix (getTokens (Lexer_new ''(p)(q)'')) = Inr [var_tok ''p'', var_tok ''q'']
   \<and> eval_postfix [var_tok ''p'', var_tok ''q'']
        ([], getPropositionTokens (Lexer_new ''(p)(q)''))
       = Inr ([False, False], getPropositionTokens (Lexer_new ''(p)(q)''))"
  by code_simp

text \<open>
  Claim C6 says that for every token sequence the validator accepts, the postfix
  sequence has the same non-parenthesis tokens and no parenthesis. The program does not
  keep it. The validator has no test for parentheses and accepts \<^verbatim>\<open>((p)\<close>, and the
  converter moves the left parenthesis that was never closed to the output. It also
  accepts \<^verbatim>\<open>)\<close>, on which the converter reads the top of the empty operator stack.
  (On sequences with balanced parentheses the property holds: \<open>toPostFix_balanced\<close>.)
\<close>

theorem accepted_sequence_keeps_parenthesis:
  "validateTokenString (getTokens (Lexer_new ''((p)'')) = Inr True
   \<and> toPostFix (getTokens (Lexer_new ''((p)'')) = Inr [var_tok ''p'', lparen_tok]
   \<and> validateTokenString (getTokens (Lexer_new '')'')) = Inr True
   \<and> toPostFix (getTokens (Lexer_new '')'')) = Inl EmptyStack"
  by code_simp

text \<open>
  Claim C7 says that every malformed input is rejected with the invalid-expression
  outcome and prints no row: misplaced operators such as \<^verbatim>\<open>p ^\<close>, unbalanced parentheses
  and empty sub-expressions. The program does not keep it. It prints a table for
  \<^verbatim>\<open>((p)\<close> (unbalanced), for \<^verbatim>\<open>(p())\<close> (an empty sub-expression) and for \<^verbatim>\<open>(p)(q)\<close>
  (no operator between two operands). It accepts \<^verbatim>\<open>(p ^)\<close> and then pops the empty
  operand stack, and on \<^verbatim>\<open>p ^\<close> the validator reads behind the last token instead of
  rejecting. An input it does reject is \<^verbatim>\<open>(p q)\<close>.
\<close>

theorem malformed_input_not_rejected:
  "evaluate ''((p)'' = Inr (Table [''p''] ''((p)'' [([True], True), ([False], False)])
   \<and> evaluate ''(p())'' = Inr (Table [''p''] ''(p())'' [([True], True), ([False], False)])
   \<and> evaluate ''(p)(q)''
       = Inr (Table [''p'', ''q''] ''(p)(q)''
           [([True, True], True), ([True, False], False),
            ([False, True], True), ([False, False], False)])
   \<and> validateTokenString (getTokens (Lexer_new ''(p ^)'')) = Inr True
   \<and> evaluate ''(p ^)'' = Inl EmptyStack
   \<and> evaluate ''p ^'' = Inl (OutOfRange 2)
   \<and> evaluate ''(p q)'' = Inr InvalidExpression"
  by code_simp

text \<open>
  Claim C8 says that the validator reads only positions inside the token sequence. The
  program does not keep it: for \<^verbatim>\<open>p ^\<close>, two tokens, the test for \<^verbatim>\<open>^\<close> reads
  \<^verbatim>\<open>tokens[2]\<close>; for \<^verbatim>\<open>p q\<close> the test for \<open>p\<close> reads \<^verbatim>\<open>tokens[-1]\<close>; and for the
  well-formed \<^verbatim>\<open>p ^ q\<close>, three tokens, the test for \<open>q\<close> reads \<^verbatim>\<open>tokens[3]\<close>.
\<close>

theorem validator_reads_out_of_range:
  "length (getTokens (Lexer_new ''p ^'')) = 2
   \<and> validateTokenString (getTokens (Lexer_new ''p ^'')) = Inl (OutOfRange 2)
   \<and> validateTokenString (getTokens (Lexer_new ''p q'')) = Inl (OutOfRange (- 1))
   \<and> length (getTokens (Lexer_new ''p ^ q'')) = 3
   \<and> validateTokenString (getTokens (Lexer_new ''p ^ q'')) = Inl (OutOfRange 3)"
  by code_simp

text \<open>
  Claim C9 says that the scanner drops a \<^verbatim>\<open>-\<close> that is not followed by \<^verbatim>\<open>>\<close> (and an
  incomplete \<^verbatim>\<open><-\<close>) and turns any other unrecognized character into a variable token
  registered under that character. The program does not keep the second part:
  \<^verbatim>\<open>matchNext\<close> steps over the character it compares, and \<^verbatim>\<open>scanToken\<close> steps once
  more, so the character after the \<^verbatim>\<open>-\<close> is never scanned. In \<^verbatim>\<open>p-q\<close> the \<open>q\<close> yields
  no token and no registry entry, and the table printed is that of \<open>p\<close> alone; scanned
  on its own, \<open>q\<close> is a variable. The same happens after \<^verbatim>\<open><\<close> and after \<^verbatim>\<open><-\<close>.
  Of the whitespace characters only the blank has a case label: a tab is scanned as a
  variable.
\<close>

theorem scanner_drops_next_character:
  "getTokens (Lexer_new ''p-q'') = [var_tok ''p'']
   \<and> getPropositionTokens (Lexer_new ''p-q'') = [(''p'', var_tok ''p'')]
   \<and> getTokens (Lexer_new ''q'') = [var_tok ''q'']
   \<and> getTokens (Lexer_new ''<q'') = []
   \<and> getTokens (Lexer_new ''<-q'') = []
   \<and> evaluate ''p-q'' = Inr (Table [''p''] ''p-q'' [([True], True), ([False], False)])
   \<and> getTokens (Lexer_new [CHR 0x09]) = [var_tok [CHR 0x09]]"
  by code_simp

end
